theory Spec2Isabelle
  imports Main
begin

section \<open>Gateway: path-keyed dispatch with a readiness gate (src/gateway.ts)\<close>









section \<open>Cross-channel \<^verbatim>\<open>send_message\<close> tool (src/tools/send-message.ts)\<close>

text \<open>
  Channel ids are JavaScript strings. The three patterns of \<^verbatim>\<open>resolveAdapter\<close> only look at
  ASCII characters, so a channel id is modelled as a \<^typ>\<open>string\<close>.

  \<^verbatim>\<open>/^-?\d+$/\<close>: an optional minus sign, then one or more of the digits 0 to 9, then the end
  of the input (there is no \<^verbatim>\<open>m\<close> flag, so \<^verbatim>\<open>$\<close> is the end of the string only).
\<close>

definition is_digit :: "char \<Rightarrow> bool" where
  "is_digit c = (c \<in> set ''0123456789'')"

definition all_digits :: "string \<Rightarrow> bool" where
  "all_digits s = (s \<noteq> [] \<and> list_all is_digit s)"

definition matches_numeric :: "string \<Rightarrow> bool" where
  "matches_numeric s =
     (case s of
        [] \<Rightarrow> False
      | c # cs \<Rightarrow> if c = CHR ''-'' then all_digits cs else all_digits (c # cs))"

text \<open>\<^verbatim>\<open>/^[CDG]/\<close>: the first character is C, D or G.\<close>

definition matches_CDG :: "string \<Rightarrow> bool" where
  "matches_CDG s = (case s of [] \<Rightarrow> False | c # cs \<Rightarrow> c \<in> set ''CDG'')"

text \<open>\<^verbatim>\<open>String.prototype.startsWith\<close>.\<close>

definition startsWith :: "string \<Rightarrow> string \<Rightarrow> bool" where
  "startsWith s p = (take (length p) s = p)"

text \<open>
  A \<^verbatim>\<open>PlatformAdapter\<close>, as far as the tool uses it: its name, \<^verbatim>\<open>postMessage\<close>, which
  resolves to a message handle or rejects, and \<^verbatim>\<open>logBotResponse\<close>, which writes a file and
  may throw. An exception is represented by its message
  (\<^verbatim>\<open>err instanceof Error ? err.message : String(err)\<close>).
\<close>

record adapter =
  name :: string
  postMessage :: "string \<Rightarrow> string \<Rightarrow> (string \<times> string) list option \<Rightarrow> string + string"
  logBotResponse :: "string \<Rightarrow> string \<Rightarrow> string \<Rightarrow> string option"

definition resolveAdapter :: "string \<Rightarrow> adapter list \<Rightarrow> adapter option" where
  "resolveAdapter channel adapters =
     (if matches_numeric channel then find (\<lambda>a. name a = ''telegram'') adapters
      else if matches_CDG channel then find (\<lambda>a. name a = ''slack'') adapters
      else if startsWith channel ''email-'' then find (\<lambda>a. name a = ''email'') adapters
      else None)"

text \<open>The double quote character, which cannot be written inside a string literal here.\<close>

definition dquote :: string where
  "dquote = [CHR 0x22]"

text \<open>Decimal rendering of a number inside a template literal.\<close>

fun decimal :: "nat \<Rightarrow> string" where
  "decimal n =
     (if n < 10 then [''0123456789'' ! n]
      else decimal (n div 10) @ [''0123456789'' ! (n mod 10)])"

declare decimal.simps [simp del]

text \<open>The value the tool returns: \<^verbatim>\<open>{ content: [{ type: "text", text }], details: undefined }\<close>.\<close>

datatype tool_result = ToolText string

definition attInfo :: "(string \<times> string) list option \<Rightarrow> string" where
  "attInfo atts =
     (case atts of
        None \<Rightarrow> []
      | Some xs \<Rightarrow> if length xs = 0 then []
                   else '' with '' @ decimal (length xs) @ '' attachment(s)'')"

text \<open>
  \<^verbatim>\<open>execute\<close> of the tool. \<^verbatim>\<open>Inl\<close> is an exception leaving \<^verbatim>\<open>execute\<close> (the returned
  promise rejects); \<^verbatim>\<open>Inr\<close> is the returned result. \<open>aborted\<close> is \<^verbatim>\<open>signal?.aborted\<close>;
  \<open>basename\<close> is Node's \<^verbatim>\<open>path.basename\<close>.
\<close>

definition execute ::
  "(string \<Rightarrow> string) \<Rightarrow> adapter list \<Rightarrow> bool \<Rightarrow> string \<Rightarrow> string \<Rightarrow> string list option
     \<Rightarrow> string + tool_result" where
  "execute basename adapters aborted channel text attachments =
     (if aborted then Inl ''Operation aborted''
      else case resolveAdapter channel adapters of
        None \<Rightarrow>
          Inr (ToolText (''No adapter found for channel '' @ dquote @ channel @ dquote @
            ''. Available patterns: numeric (Telegram), C/D/G prefix (Slack), email-{address} (Email).''))
      | Some a \<Rightarrow>
          (let attachmentObjects = map_option (map (\<lambda>filePath. (filePath, basename filePath))) attachments
           in case postMessage a channel text attachmentObjects of
                Inl errMsg \<Rightarrow> Inr (ToolText (''Failed to send: '' @ errMsg))
              | Inr ts \<Rightarrow>
                  (case logBotResponse a channel text ts of
                     Some errMsg \<Rightarrow> Inr (ToolText (''Failed to send: '' @ errMsg))
                   | None \<Rightarrow>
                       Inr (ToolText (''Message sent to '' @ name a @ '' channel '' @ channel @
                              attInfo attachmentObjects @ '' (ts='' @ ts @ '')'')))))"

text \<open>
  Three concrete adapters for evaluating the model: a Telegram adapter whose calls succeed,
  a Slack adapter whose \<^verbatim>\<open>postMessage\<close> rejects, and an Email adapter whose calls succeed.
\<close>

definition telegram_stub :: adapter where
  "telegram_stub =
     \<lparr>name = ''telegram'', postMessage = (\<lambda>c t a. Inr ''42''), logBotResponse = (\<lambda>c t ts. None)\<rparr>"

definition slack_stub :: adapter where
  "slack_stub =
     \<lparr>name = ''slack'', postMessage = (\<lambda>c t a. Inl ''channel_not_found''),
      logBotResponse = (\<lambda>c t ts. None)\<rparr>"

definition email_stub :: adapter where
  "email_stub =
     \<lparr>name = ''email'', postMessage = (\<lambda>c t a. Inr ''1700000000000''),
      logBotResponse = (\<lambda>c t ts. None)\<rparr>"

definition stub_adapters :: "adapter list" where
  "stub_adapters = [telegram_stub, slack_stub, email_stub]"

section \<open>Webhook adapters: the dispatch boundary\<close>

subsection \<open>Slack (SlackWebhookAdapter.dispatch)\<close>

text \<open>
  The request as \<^verbatim>\<open>dispatch\<close> reads it once the body has arrived: the two signature headers
  (\<^verbatim>\<open>string | undefined\<close>) and the body decoded as UTF-8.
\<close>

record slack_request =
  x_slack_request_timestamp :: "string option"
  x_slack_signature :: "string option"
  slack_body :: string

text \<open>
  What \<^verbatim>\<open>dispatch\<close> takes from outside the adapter: the signing secret, the clock
  (\<^verbatim>\<open>Math.floor(Date.now() / 1000)\<close>), \<^verbatim>\<open>parseInt(s, 10)\<close> (\<open>None\<close> is NaN), the hex digest of
  HMAC-SHA256 (key, then message) and \<^verbatim>\<open>JSON.parse\<close> (\<open>None\<close> is a thrown SyntaxError).
\<close>

record 'p slack_env =
  signingSecret :: string
  now :: int
  parseInt10 :: "string \<Rightarrow> int option"
  hmac_sha256_hex :: "string \<Rightarrow> string \<Rightarrow> string"
  slack_json_parse :: "string \<Rightarrow> 'p option"

text \<open>\<^verbatim>\<open>!x\<close> for \<^verbatim>\<open>x: string | undefined\<close>: true for undefined and for the empty string.\<close>

definition falsy :: "string option \<Rightarrow> bool" where
  "falsy x = (case x of None \<Rightarrow> True | Some s \<Rightarrow> s = [])"

text \<open>
  \<^verbatim>\<open>timingSafeEqual\<close> throws when the two buffers differ in length, and the \<^verbatim>\<open>catch\<close> returns
  false; on equal lengths it compares the bytes. So the result is equality of the strings.
\<close>

definition verifySignature :: "'p slack_env \<Rightarrow> string \<Rightarrow> string \<Rightarrow> string \<Rightarrow> bool" where
  "verifySignature env timestamp body expectedSignature =
     (let sigBasestring = ''v0:'' @ timestamp @ '':'' @ body;
          computed = ''v0='' @ hmac_sha256_hex env (signingSecret env) sigBasestring
      in computed = expectedSignature)"

text \<open>\<^verbatim>\<open>Math.abs(now - parseInt(timestamp, 10)) > 300\<close>; any comparison with NaN is false.\<close>

definition too_old :: "'p slack_env \<Rightarrow> string \<Rightarrow> bool" where
  "too_old env timestamp =
     (case parseInt10 env timestamp of None \<Rightarrow> False | Some t \<Rightarrow> \<bar>now env - t\<bar> > 300)"

text \<open>
  The outcome of \<^verbatim>\<open>dispatch\<close>: either it writes a status and a body and returns, or it calls
  \<^verbatim>\<open>this.dispatchEvent(payload, res)\<close>, the only way from a request to
  \<^verbatim>\<open>handleAppMention\<close>, \<^verbatim>\<open>handleMessage\<close>, the queue and the handler.
\<close>

datatype 'p slack_outcome =
    SlackRejected nat string
  | DispatchEvent 'p

definition slack_dispatch :: "'p slack_env \<Rightarrow> slack_request \<Rightarrow> 'p slack_outcome" where
  "slack_dispatch env req =
     (case (x_slack_request_timestamp req, x_slack_signature req) of
        (Some timestamp, Some signature) \<Rightarrow>
          if timestamp = [] \<or> signature = [] then SlackRejected 401 ''Missing signature headers''
          else if too_old env timestamp then SlackRejected 401 ''Request too old''
          else if \<not> verifySignature env timestamp (slack_body req) signature
          then SlackRejected 401 ''Invalid signature''
          else (case slack_json_parse env (slack_body req) of
                  None \<Rightarrow> SlackRejected 400 ''Invalid JSON''
                | Some payload \<Rightarrow> DispatchEvent payload)
      | _ \<Rightarrow> SlackRejected 401 ''Missing signature headers'')"

subsection \<open>Telegram (TelegramWebhookAdapter.handleRequest, src/adapters/telegram-webhook.ts)\<close>

record telegram_request =
  tg_method :: string
  tg_url :: "string option"
  x_telegram_bot_api_secret_token :: "string option"
  tg_body :: string

text \<open>
  Either a status and a body, or the acknowledgement 200 followed by
  \<^verbatim>\<open>this.bot.processUpdate(update)\<close>, which fires \<^verbatim>\<open>handleIncomingMessage\<close>.
\<close>

datatype 'u telegram_outcome =
    TelegramRejected nat string
  | ProcessUpdate 'u

definition handleRequest ::
  "string \<Rightarrow> (string \<Rightarrow> 'u option) \<Rightarrow> telegram_request \<Rightarrow> 'u telegram_outcome" where
  "handleRequest webhookSecret json_parse req =
     (if tg_method req \<noteq> ''POST'' \<or> tg_url req \<noteq> Some ''/telegram/webhook''
      then TelegramRejected 404 ''Not found''
      else if falsy (x_telegram_bot_api_secret_token req)
              \<or> x_telegram_bot_api_secret_token req \<noteq> Some webhookSecret
      then TelegramRejected 401 ''Invalid secret token''
      else (case json_parse (tg_body req) of
              None \<Rightarrow> TelegramRejected 400 ''Invalid JSON''
            | Some update \<Rightarrow> ProcessUpdate update))"

text \<open>
  Concrete surroundings for evaluating the two adapters: a digest that is not a real HMAC
  (any function of key and message will do for the control flow) and a parser that accepts
  one body.
\<close>

definition stub_parse :: "string \<Rightarrow> nat option" where
  "stub_parse b = (if b = ''{}'' then Some 0 else None)"

definition stub_slack_env :: "nat slack_env" where
  "stub_slack_env =
     \<lparr>signingSecret = ''s3cret'', now = 1700000000,
      parseInt10 = (\<lambda>s. if s = ''1700000000'' then Some 1700000000 else None),
      hmac_sha256_hex = (\<lambda>k m. ''ab''), slack_json_parse = stub_parse\<rparr>"

section \<open>The shared handler: per-channel run state (src/main.ts)\<close>

text \<open>
  \<^verbatim>\<open>interface ChannelState\<close>. The runner and the store are opaque collaborators; what the
  handler asks of them is recorded as an effect.
\<close>

record ChannelState =
  running :: bool
  stopRequested :: bool
  stopMessageTs :: "string option"

type_synonym channelStates = "string \<rightharpoonup> ChannelState"

text \<open>Calls the handler makes on the platform adapter, the rendering context, the runner and the log.\<close>

datatype effect =
    SetTyping string bool
  | SetWorking string bool
  | RunnerRun string
  | RunnerAbort string
  | PostMessage string string
  | UpdateMessage string string string
  | LogWarning string string

text \<open>\<^verbatim>\<open>getState\<close>: the state of a channel is created on first use and never removed.\<close>

definition getState :: "channelStates \<Rightarrow> string \<Rightarrow> ChannelState" where
  "getState cs channelId =
     (case cs channelId of
        None \<Rightarrow> \<lparr>running = False, stopRequested = False, stopMessageTs = None\<rparr>
      | Some state \<Rightarrow> state)"

text \<open>\<^verbatim>\<open>state?.running ?? false\<close>.\<close>

definition isRunning :: "channelStates \<Rightarrow> string \<Rightarrow> bool" where
  "isRunning cs channelId = (case cs channelId of None \<Rightarrow> False | Some state \<Rightarrow> running state)"

text \<open>
  \<^verbatim>\<open>handleEvent\<close> and \<^verbatim>\<open>handleStop\<close> are \<^verbatim>\<open>async\<close>: each runs without interruption up to its
  next \<^verbatim>\<open>await\<close>, and continues when the awaited promise settles. An invocation is
  therefore a position in the function body (the \<^verbatim>\<open>await\<close> it is suspended at), and the
  function is given as its first segment and its continuation from each position.
\<close>

datatype run_pc =
    AwaitSetTyping
  | AwaitSetWorkingOn
  | AwaitRun
  | AwaitSetWorkingOff string
  | AwaitUpdateStopped
  | AwaitPostStopped

datatype stop_pc =
    AwaitStoppingPost
  | AwaitNothingRunningPost

text \<open>
  How an awaited promise settles: fulfilled with no value, fulfilled by \<^verbatim>\<open>runner.run\<close>
  with a stop reason, fulfilled by \<^verbatim>\<open>postMessage\<close> with a message handle, or rejected with
  an error message.
\<close>

datatype settled =
    Fulfilled
  | FulfilledRun string
  | FulfilledPost string
  | Rejected string

text \<open>
  \<^verbatim>\<open>handleEvent\<close> up to \<^verbatim>\<open>await ctx.setTyping(true)\<close>. \<^verbatim>\<open>platform.createContext\<close> is taken
  not to throw.
\<close>

definition handleEvent_start ::
  "channelStates \<Rightarrow> string \<Rightarrow> channelStates \<times> effect list \<times> run_pc" where
  "handleEvent_start cs channel =
     (let state = getState cs channel
      in (cs(channel \<mapsto> state\<lparr>running := True, stopRequested := False\<rparr>),
          [SetTyping channel True], AwaitSetTyping))"

text \<open>The \<^verbatim>\<open>finally\<close> block: \<^verbatim>\<open>state.running = false\<close>.\<close>

definition finally_block :: "channelStates \<Rightarrow> string \<Rightarrow> channelStates" where
  "finally_block cs channel =
     (case cs channel of None \<Rightarrow> cs | Some state \<Rightarrow> cs(channel \<mapsto> state\<lparr>running := False\<rparr>))"

definition clear_stopMessageTs :: "channelStates \<Rightarrow> string \<Rightarrow> channelStates" where
  "clear_stopMessageTs cs channel =
     (case cs channel of None \<Rightarrow> cs | Some state \<Rightarrow> cs(channel \<mapsto> state\<lparr>stopMessageTs := None\<rparr>))"

text \<open>\<^verbatim>\<open>if (state.stopMessageTs)\<close>: undefined and the empty string are falsy.\<close>

definition truthy :: "string option \<Rightarrow> string option" where
  "truthy x = (case x of None \<Rightarrow> None | Some ts \<Rightarrow> if ts = [] then None else Some ts)"

text \<open>
  The continuation of \<^verbatim>\<open>handleEvent\<close> from each \<^verbatim>\<open>await\<close>. A rejection anywhere inside the
  \<^verbatim>\<open>try\<close> goes to the \<^verbatim>\<open>catch\<close> (a warning is logged) and then to the \<^verbatim>\<open>finally\<close>. The
  result is the new states, the calls made, and the next position (\<open>None\<close> when the
  invocation has returned). A settlement of the wrong kind for the position cannot happen
  and gives \<open>None\<close>.
\<close>

fun handleEvent_resume ::
  "channelStates \<Rightarrow> string \<Rightarrow> run_pc \<Rightarrow> settled
     \<Rightarrow> (channelStates \<times> effect list \<times> run_pc option) option" where
  "handleEvent_resume cs channel pc (Rejected err) =
     Some (finally_block cs channel, [LogWarning channel err], None)"
| "handleEvent_resume cs channel AwaitSetTyping Fulfilled =
     Some (cs, [SetWorking channel True], Some AwaitSetWorkingOn)"
| "handleEvent_resume cs channel AwaitSetWorkingOn Fulfilled =
     Some (cs, [RunnerRun channel], Some AwaitRun)"
| "handleEvent_resume cs channel AwaitRun (FulfilledRun stopReason) =
     Some (cs, [SetWorking channel False], Some (AwaitSetWorkingOff stopReason))"
| "handleEvent_resume cs channel (AwaitSetWorkingOff stopReason) Fulfilled =
     (if stopReason = ''aborted'' \<and> stopRequested (getState cs channel) then
        (case truthy (stopMessageTs (getState cs channel)) of
           Some ts \<Rightarrow> Some (cs, [UpdateMessage channel ts ''_Stopped_''], Some AwaitUpdateStopped)
         | None \<Rightarrow> Some (cs, [PostMessage channel ''_Stopped_''], Some AwaitPostStopped))
      else Some (finally_block cs channel, [], None))"
| "handleEvent_resume cs channel AwaitUpdateStopped Fulfilled =
     Some (finally_block (clear_stopMessageTs cs channel) channel, [], None)"
| "handleEvent_resume cs channel AwaitPostStopped (FulfilledPost ts) =
     Some (finally_block cs channel, [], None)"
| "handleEvent_resume cs channel pc r = None"

text \<open>\<^verbatim>\<open>handleStop\<close> up to its \<^verbatim>\<open>await platform.postMessage(...)\<close>.\<close>

definition handleStop_start ::
  "channelStates \<Rightarrow> string \<Rightarrow> channelStates \<times> effect list \<times> stop_pc" where
  "handleStop_start cs channelId =
     (case cs channelId of
        None \<Rightarrow> (cs, [PostMessage channelId ''_Nothing running_''], AwaitNothingRunningPost)
      | Some state \<Rightarrow>
          if running state then
            (cs(channelId \<mapsto> state\<lparr>stopRequested := True\<rparr>),
             [RunnerAbort channelId, PostMessage channelId ''_Stopping..._''], AwaitStoppingPost)
          else (cs, [PostMessage channelId ''_Nothing running_''], AwaitNothingRunningPost))"

text \<open>
  \<^verbatim>\<open>handleStop\<close> after the post settles: \<^verbatim>\<open>state.stopMessageTs = ts\<close> in the running branch,
  nothing in the other; a rejected post leaves \<^verbatim>\<open>handleStop\<close> with the exception and the
  states as they are.
\<close>

fun handleStop_resume ::
  "channelStates \<Rightarrow> string \<Rightarrow> stop_pc \<Rightarrow> settled \<Rightarrow> channelStates option" where
  "handleStop_resume cs channelId AwaitStoppingPost (FulfilledPost ts) =
     (case cs channelId of
        None \<Rightarrow> Some cs
      | Some state \<Rightarrow> Some (cs(channelId \<mapsto> state\<lparr>stopMessageTs := Some ts\<rparr>)))"
| "handleStop_resume cs channelId AwaitNothingRunningPost (FulfilledPost ts) = Some cs"
| "handleStop_resume cs channelId pc (Rejected err) = Some cs"
| "handleStop_resume cs channelId pc r = None"

subsection \<open>Interleaved invocations\<close>

text \<open>
  The process is single-threaded: between two \<^verbatim>\<open>await\<close>s nothing else runs, and any number
  of invocations may be suspended at once. The handler's state is the map of channel
  states, the suspended invocations, and the calls made so far.
\<close>

datatype task =
    RunTask string run_pc
  | StopTask string stop_pc

record handler_state =
  channelStates :: channelStates
  tasks :: "task list"
  effects :: "effect list"

datatype handler_event =
    CallHandleEvent string
  | CallHandleStop string
  | Settle nat settled

definition init_handler :: handler_state where
  "init_handler = \<lparr>channelStates = Map.empty, tasks = [], effects = []\<rparr>"

definition remove_nth :: "nat \<Rightarrow> 'a list \<Rightarrow> 'a list" where
  "remove_nth i xs = take i xs @ drop (Suc i) xs"

text \<open>
  One step: a new call of \<^verbatim>\<open>handleEvent\<close> or \<^verbatim>\<open>handleStop\<close> runs its first segment, or the
  promise awaited by the suspended invocation number \<open>i\<close> settles and that invocation runs
  its next segment. \<open>None\<close>: there is no such invocation, or the settlement is of the wrong
  kind.
\<close>

definition handler_step :: "handler_state \<Rightarrow> handler_event \<Rightarrow> handler_state option" where
  "handler_step s e =
     (case e of
        CallHandleEvent channel \<Rightarrow>
          (case handleEvent_start (channelStates s) channel of
             (cs', eff, pc) \<Rightarrow>
               Some (s\<lparr>channelStates := cs', tasks := tasks s @ [RunTask channel pc],
                       effects := effects s @ eff\<rparr>))
      | CallHandleStop channel \<Rightarrow>
          (case handleStop_start (channelStates s) channel of
             (cs', eff, pc) \<Rightarrow>
               Some (s\<lparr>channelStates := cs', tasks := tasks s @ [StopTask channel pc],
                       effects := effects s @ eff\<rparr>))
      | Settle i r \<Rightarrow>
          if i < length (tasks s) then
            (case tasks s ! i of
               RunTask channel pc \<Rightarrow>
                 (case handleEvent_resume (channelStates s) channel pc r of
                    None \<Rightarrow> None
                  | Some (cs', eff, None) \<Rightarrow>
                      Some (s\<lparr>channelStates := cs', tasks := remove_nth i (tasks s),
                              effects := effects s @ eff\<rparr>)
                  | Some (cs', eff, Some pc') \<Rightarrow>
                      Some (s\<lparr>channelStates := cs', tasks := (tasks s)[i := RunTask channel pc'],
                              effects := effects s @ eff\<rparr>))
             | StopTask channel pc \<Rightarrow>
                 (case handleStop_resume (channelStates s) channel pc r of
                    None \<Rightarrow> None
                  | Some cs' \<Rightarrow>
                      Some (s\<lparr>channelStates := cs', tasks := remove_nth i (tasks s)\<rparr>)))
          else None)"

fun handler_run :: "handler_state \<Rightarrow> handler_event list \<Rightarrow> handler_state option" where
  "handler_run s [] = Some s"
| "handler_run s (e # es) =
     (case handler_step s e of None \<Rightarrow> None | Some s' \<Rightarrow> handler_run s' es)"

text \<open>The invocations of \<^verbatim>\<open>handleEvent\<close> for a channel that have started and not yet returned.\<close>

fun is_run_of :: "string \<Rightarrow> task \<Rightarrow> bool" where
  "is_run_of channel (RunTask c pc) = (c = channel)"
| "is_run_of channel (StopTask c pc) = False"

definition runs_in_flight :: "handler_state \<Rightarrow> string \<Rightarrow> nat" where
  "runs_in_flight s channel = length (filter (is_run_of channel) (tasks s))"

text \<open>
  The contract on callers written at \<^verbatim>\<open>MomHandler.handleEvent\<close> ("Called only when
  isRunning() returned false"): along a sequence of events, every call of \<^verbatim>\<open>handleEvent\<close>
  is made for a channel that is not running at that moment.
\<close>

fun callers_check_isRunning :: "handler_state \<Rightarrow> handler_event list \<Rightarrow> bool" where
  "callers_check_isRunning s [] = True"
| "callers_check_isRunning s (e # es) =
     ((case e of CallHandleEvent channel \<Rightarrow> \<not> isRunning (channelStates s) channel | _ \<Rightarrow> True)
      \<and> (case handler_step s e of None \<Rightarrow> True | Some s' \<Rightarrow> callers_check_isRunning s' es))"

text \<open>
  The invariant behind the run flag: the number of invocations of \<^verbatim>\<open>handleEvent\<close> in flight
  for a channel is one when the channel's flag is set and zero otherwise.
\<close>

definition run_flag_inv :: "handler_state \<Rightarrow> bool" where
  "run_flag_inv s = (\<forall>c. runs_in_flight s c = (if isRunning (channelStates s) c then 1 else 0))"

text \<open>What can be seen of a channel after a sequence of events from the initial state.\<close>

definition observe :: "handler_event list \<Rightarrow> string \<Rightarrow> (bool \<times> nat) option" where
  "observe es channel =
     map_option (\<lambda>s. (isRunning (channelStates s) channel, runs_in_flight s channel))
       (handler_run init_handler es)"








section \<open>Telegram adapter: per-conversation work queue (TelegramBase)\<close>

text \<open>\<^verbatim>\<open>MomEvent\<close>, with the fields the queue and the rendering context read.\<close>

record MomEvent =
  ev_channel :: string
  ev_ts :: string
  ev_user :: string
  ev_text :: string

text \<open>
  \<^verbatim>\<open>type QueuedWork = () => Promise<void>\<close>. The two closures the adapter ever enqueues are
  \<^verbatim>\<open>() => this.handler.handleEvent(momEvent, this)\<close> and
  \<^verbatim>\<open>() => this.handler.handleEvent(event, this, true)\<close>; a closure is represented by its
  event and the \<^verbatim>\<open>isEvent\<close> flag.
\<close>

datatype work = HandleEventWork MomEvent bool

text \<open>
  What happens to work items, in the order it happens: a push onto a queue, the call
  \<^verbatim>\<open>work()\<close>, the settlement of the promise it returned, the warning logged by the \<^verbatim>\<open>catch\<close>
  of the drain loop, and the warning logged when \<^verbatim>\<open>enqueueEvent\<close> discards an event.
\<close>

datatype qlog_entry =
    Enqueued string work
  | Started string work
  | Settled string work
  | QueueError string
  | QueueFull string MomEvent

text \<open>
  \<^verbatim>\<open>queues\<close> and \<^verbatim>\<open>processing\<close> are the two private maps of \<^verbatim>\<open>TelegramBase\<close>. \<^verbatim>\<open>processQueue\<close>
  is \<^verbatim>\<open>async\<close>: \<open>loops\<close> holds its invocations that are suspended at \<^verbatim>\<open>await work()\<close>, each
  with its channel and the work it awaits.
\<close>

record telegram_queues =
  queues :: "string \<rightharpoonup> work list"
  processing :: "string \<rightharpoonup> bool"
  loops :: "(string \<times> work) list"
  qlog :: "qlog_entry list"

definition init_queues :: telegram_queues where
  "init_queues = \<lparr>queues = Map.empty, processing = Map.empty, loops = [], qlog = []\<rparr>"

text \<open>\<^verbatim>\<open>this.queues.get(channelId) || []\<close>.\<close>

definition pending :: "telegram_queues \<Rightarrow> string \<Rightarrow> work list" where
  "pending qs channelId = (case queues qs channelId of None \<Rightarrow> [] | Some queue \<Rightarrow> queue)"

text \<open>\<^verbatim>\<open>this.processing.get(channelId)\<close> as a condition: undefined is falsy.\<close>

definition is_processing :: "telegram_queues \<Rightarrow> string \<Rightarrow> bool" where
  "is_processing qs channelId = (processing qs channelId = Some True)"

text \<open>
  The head of the \<^verbatim>\<open>while\<close> loop of \<^verbatim>\<open>processQueue\<close>, up to the next suspension: with a
  non-empty queue the front item is shifted out and called, and the loop suspends awaiting
  it; otherwise the loop ends and \<^verbatim>\<open>processing\<close> is set to false.
\<close>

definition loop_head :: "telegram_queues \<Rightarrow> string \<Rightarrow> telegram_queues" where
  "loop_head qs channelId =
     (case queues qs channelId of
        Some (w # rest) \<Rightarrow>
          qs\<lparr>queues := (queues qs)(channelId \<mapsto> rest),
             loops := loops qs @ [(channelId, w)],
             qlog := qlog qs @ [Started channelId w]\<rparr>
      | _ \<Rightarrow> qs\<lparr>processing := (processing qs)(channelId \<mapsto> False)\<rparr>)"

definition processQueue :: "telegram_queues \<Rightarrow> string \<Rightarrow> telegram_queues" where
  "processQueue qs channelId =
     (if is_processing qs channelId then qs
      else loop_head (qs\<lparr>processing := (processing qs)(channelId \<mapsto> True)\<rparr>) channelId)"

definition enqueueWork :: "telegram_queues \<Rightarrow> string \<Rightarrow> work \<Rightarrow> telegram_queues" where
  "enqueueWork qs channelId w =
     processQueue
       (qs\<lparr>queues := (queues qs)(channelId \<mapsto> pending qs channelId @ [w]),
           qlog := qlog qs @ [Enqueued channelId w]\<rparr>)
       channelId"

definition enqueueEvent :: "telegram_queues \<Rightarrow> MomEvent \<Rightarrow> telegram_queues \<times> bool" where
  "enqueueEvent qs event =
     (if length (pending qs (ev_channel event)) \<ge> 5
      then (qs\<lparr>qlog := qlog qs @ [QueueFull (ev_channel event) event]\<rparr>, False)
      else (enqueueWork qs (ev_channel event) (HandleEventWork event True), True))"

text \<open>
  The rest of a loop iteration once the awaited work has settled (\<open>Some err\<close> is a
  rejection): the \<^verbatim>\<open>catch\<close> logs the rejection, and the loop goes back to its head.
  \<open>None\<close>: there is no suspended loop number \<open>i\<close>.
\<close>

definition processQueue_resume ::
  "telegram_queues \<Rightarrow> nat \<Rightarrow> string option \<Rightarrow> telegram_queues option" where
  "processQueue_resume qs i rejected =
     (if i < length (loops qs) then
        (case loops qs ! i of
           (channelId, w) \<Rightarrow>
             Some (loop_head
               (qs\<lparr>loops := remove_nth i (loops qs),
                   qlog := qlog qs @ Settled channelId w #
                     (case rejected of None \<Rightarrow> [] | Some err \<Rightarrow> [QueueError err])\<rparr>)
               channelId))
      else None)"

text \<open>Calls of \<^verbatim>\<open>enqueueEvent\<close> one after the other, with nothing settling in between.\<close>

fun enqueueEvents :: "telegram_queues \<Rightarrow> MomEvent list \<Rightarrow> telegram_queues \<times> bool list" where
  "enqueueEvents qs [] = (qs, [])"
| "enqueueEvents qs (e # es) =
     (case enqueueEvent qs e of
        (qs', r) \<Rightarrow> (case enqueueEvents qs' es of (qs'', rs) \<Rightarrow> (qs'', r # rs)))"

subsection \<open>Interleavings of the queue\<close>

datatype queue_event =
    EnqueueEvent MomEvent
  | EnqueueWork string work
  | WorkSettles nat "string option"

definition queue_step :: "telegram_queues \<Rightarrow> queue_event \<Rightarrow> telegram_queues option" where
  "queue_step qs e =
     (case e of
        EnqueueEvent event \<Rightarrow> Some (fst (enqueueEvent qs event))
      | EnqueueWork channelId w \<Rightarrow> Some (enqueueWork qs channelId w)
      | WorkSettles i rejected \<Rightarrow> processQueue_resume qs i rejected)"

fun queue_run :: "telegram_queues \<Rightarrow> queue_event list \<Rightarrow> telegram_queues option" where
  "queue_run qs [] = Some qs"
| "queue_run qs (e # es) =
     (case queue_step qs e of None \<Rightarrow> None | Some qs' \<Rightarrow> queue_run qs' es)"

text \<open>Reading the log: the items pushed for a channel and the items called for it, in order.\<close>

fun enqueued_of :: "string \<Rightarrow> qlog_entry list \<Rightarrow> work list" where
  "enqueued_of ch [] = []"
| "enqueued_of ch (Enqueued c w # l) = (if c = ch then w # enqueued_of ch l else enqueued_of ch l)"
| "enqueued_of ch (x # l) = enqueued_of ch l"

fun started_of :: "string \<Rightarrow> qlog_entry list \<Rightarrow> work list" where
  "started_of ch [] = []"
| "started_of ch (Started c w # l) = (if c = ch then w # started_of ch l else started_of ch l)"
| "started_of ch (x # l) = started_of ch l"

text \<open>
  Reading the log for overlap: going through the log with the item of the channel that is
  currently executing (\<open>cur\<close>), a call is allowed only when none is executing and a
  settlement only for the one that is. The result is the item executing at the end, or
  \<open>None\<close> when the log breaks the rule.
\<close>

fun one_at_a_time :: "string \<Rightarrow> work option \<Rightarrow> qlog_entry list \<Rightarrow> work option option" where
  "one_at_a_time ch cur [] = Some cur"
| "one_at_a_time ch cur (Started c w # l) =
     (if c = ch then (if cur = None then one_at_a_time ch (Some w) l else None)
      else one_at_a_time ch cur l)"
| "one_at_a_time ch cur (Settled c w # l) =
     (if c = ch then (if cur = Some w then one_at_a_time ch None l else None)
      else one_at_a_time ch cur l)"
| "one_at_a_time ch cur (x # l) = one_at_a_time ch cur l"

text \<open>The suspended drain loops of one channel, and the work the first of them awaits.\<close>

definition loops_of :: "telegram_queues \<Rightarrow> string \<Rightarrow> (string \<times> work) list" where
  "loops_of qs ch = filter (\<lambda>l. fst l = ch) (loops qs)"

fun find_loop :: "string \<Rightarrow> (string \<times> work) list \<Rightarrow> nat option" where
  "find_loop ch [] = None"
| "find_loop ch (l # ls) =
     (if fst l = ch then Some 0 else map_option Suc (find_loop ch ls))"

text \<open>
  Letting a channel drain: at most \<open>n\<close> times, the work awaited by the channel's loop
  settles, rejected or not as \<open>rej\<close> says for that work.
\<close>

fun drain :: "nat \<Rightarrow> (work \<Rightarrow> string option) \<Rightarrow> string \<Rightarrow> telegram_queues \<Rightarrow> telegram_queues" where
  "drain 0 rej ch qs = qs"
| "drain (Suc n) rej ch qs =
     (case find_loop ch (loops qs) of
        None \<Rightarrow> qs
      | Some i \<Rightarrow>
          (case processQueue_resume qs i (rej (snd (loops qs ! i))) of
             None \<Rightarrow> qs
           | Some qs' \<Rightarrow> drain n rej ch qs'))"

text \<open>
  The invariant of the queue: a channel has one suspended loop while its \<^verbatim>\<open>processing\<close> flag
  is set and none otherwise; with the flag clear nothing is pending; the items called so
  far followed by the pending ones are the items pushed; and the log shows one item at a
  time, the last one being the one the loop awaits.
\<close>

definition queue_inv :: "telegram_queues \<Rightarrow> bool" where
  "queue_inv qs =
     (\<forall>ch. length (loops_of qs ch) = (if is_processing qs ch then 1 else 0)
          \<and> (\<not> is_processing qs ch \<longrightarrow> pending qs ch = [])
          \<and> started_of ch (qlog qs) @ pending qs ch = enqueued_of ch (qlog qs)
          \<and> one_at_a_time ch None (qlog qs) =
              Some (case loops_of qs ch of [] \<Rightarrow> None | l # ls \<Rightarrow> Some (snd l)))"

text \<open>Six events for channel \<^verbatim>\<open>c\<close>, for evaluating the queue.\<close>

definition ev :: "string \<Rightarrow> MomEvent" where
  "ev t = \<lparr>ev_channel = ''c'', ev_ts = ''0'', ev_user = ''EVENT'', ev_text = t\<rparr>"

definition six_events :: "MomEvent list" where
  "six_events = [ev ''1'', ev ''2'', ev ''3'', ev ''4'', ev ''5'', ev ''6'']"

text \<open>Two rejection oracles for \<open>drain\<close>: every work item throws, and none does.\<close>

definition all_throw :: "work \<Rightarrow> string option" where
  "all_throw w = Some ''boom''"

definition none_throw :: "work \<Rightarrow> string option" where
  "none_throw w = None"

text \<open>
  The same invariant at the moment the loop of channel \<open>ch0\<close> is at its head: the flag of
  \<open>ch0\<close> is set, none of its loops is suspended and none of its items is executing.
\<close>

definition at_head :: "telegram_queues \<Rightarrow> string \<Rightarrow> bool" where
  "at_head qs ch0 =
     (is_processing qs ch0 \<and> loops_of qs ch0 = []
      \<and> one_at_a_time ch0 None (qlog qs) = Some None
      \<and> (\<forall>ch. started_of ch (qlog qs) @ pending qs ch = enqueued_of ch (qlog qs))
      \<and> (\<forall>ch. ch \<noteq> ch0 \<longrightarrow>
            length (loops_of qs ch) = (if is_processing qs ch then 1 else 0)
          \<and> (\<not> is_processing qs ch \<longrightarrow> pending qs ch = [])
          \<and> one_at_a_time ch None (qlog qs) =
              Some (case loops_of qs ch of [] \<Rightarrow> None | l # ls \<Rightarrow> Some (snd l))))"

text \<open>A sequence of queue events for evaluating the model: a user message, then two events.\<close>

definition example_queue_trace :: "queue_event list" where
  "example_queue_trace =
     [EnqueueWork ''c'' (HandleEventWork (ev ''u'') False), EnqueueEvent (ev ''1''),
      EnqueueEvent (ev ''2'')]"

definition example_blocked_trace :: "queue_event list" where
  "example_blocked_trace = [EnqueueWork ''c'' (HandleEventWork (ev ''u'') False)]"

section \<open>Telegram adapter: the rendering context of one run (TelegramBase.createContext)\<close>

text \<open>
  Text is kept as \<^typ>\<open>string\<close>, a list of bytes. The source file is UTF-8 and the one
  non-ASCII character the context looks for is the arrow U+2192 of a tool label; as bytes
  it is E2 86 92. A byte prefix test on UTF-8 text agrees with \<^verbatim>\<open>startsWith\<close> on the
  JavaScript string.
\<close>

definition arrow :: string where
  "arrow = [CHR 0xE2, CHR 0x86, CHR 0x92]"

definition newline :: string where
  "newline = [CHR 0x0A]"

text \<open>
  \<^verbatim>\<open>escapeHtml\<close>: the three \<^verbatim>\<open>replace\<close> calls with the \<^verbatim>\<open>g\<close> flag, ampersand first. The
  replacements for \<^verbatim>\<open><\<close> and \<^verbatim>\<open>>\<close> do not touch what the first pass wrote, so the result
  is the character-wise substitution.
\<close>

definition escapeHtml :: "string \<Rightarrow> string" where
  "escapeHtml text =
     concat (map (\<lambda>c. if c = CHR ''&'' then ''&amp;''
                        else if c = CHR ''<'' then ''&lt;''
                        else if c = CHR ''>'' then ''&gt;''
                        else [c]) text)"

text \<open>\<^verbatim>\<open>text.replace(/^_/, "").replace(/_$/, "")\<close>.\<close>

definition strip_underscores :: "string \<Rightarrow> string" where
  "strip_underscores text =
     (let a = (case text of c # cs \<Rightarrow> if c = CHR ''_'' then cs else text | [] \<Rightarrow> [])
      in if a \<noteq> [] \<and> last a = CHR ''_'' then butlast a else a)"

text \<open>\<^verbatim>\<open>lines.join("\n")\<close>.\<close>

fun join_lines :: "string list \<Rightarrow> string" where
  "join_lines [] = []"
| "join_lines [x] = x"
| "join_lines (x # y # ys) = x @ newline @ join_lines (y # ys)"

text \<open>The variables captured by the closures of one context.\<close>

record ctx_state =
  messageId :: "string option"
  finalText :: string
  isWorking :: bool
  recentTools :: "string list"
  completedToolCount :: nat

definition init_ctx :: ctx_state where
  "init_ctx =
     \<lparr>messageId = None, finalText = [], isWorking = True, recentTools = [],
      completedToolCount = 0\<rparr>"

text \<open>
  \<^verbatim>\<open>buildStatusDisplay\<close>. \<open>eventFilename\<close> is the file name matched out of the text of a
  scheduled event, undefined otherwise.
\<close>

definition buildStatusDisplay :: "string option \<Rightarrow> ctx_state \<Rightarrow> string" where
  "buildStatusDisplay eventFilename c =
     (let lines =
            (if completedToolCount c > 0
             then [''<i>'' @ decimal (completedToolCount c) @ '' tool call'' @
                   (if completedToolCount c > 1 then ''s'' else []) @ '' completed</i>'']
             else [])
            @ recentTools c
      in if length lines = 0 then
           (case truthy eventFilename of
              Some f \<Rightarrow> ''<i>Starting event: '' @ escapeHtml f @ ''</i>''
            | None \<Rightarrow> ''<i>Thinking</i>'')
         else join_lines lines)"

text \<open>
  The calls the context makes on the adapter and the bot, all for the channel of the
  event: \<^verbatim>\<open>bot.sendChatAction(.., "typing")\<close>, \<^verbatim>\<open>postMessage\<close>, \<^verbatim>\<open>updateMessage\<close> and
  \<^verbatim>\<open>deleteMessage\<close>; and how such a call settles.
\<close>

datatype platform_op =
    OpSendChatAction
  | OpPostMessage string
  | OpUpdateMessage string string
  | OpDeleteMessage string

datatype op_result =
    OpOk
  | OpPosted string
  | OpFailed string

text \<open>
  Where a chained callback is suspended: at one of the two \<^verbatim>\<open>await\<close>s of \<^verbatim>\<open>setTyping\<close>, at
  the post or the edit inside \<^verbatim>\<open>updateDisplay\<close> (with the text \<^verbatim>\<open>respond\<close> will log
  afterwards, if any), or at the delete.
\<close>

datatype seg_pc =
    AfterChatAction
  | AfterTypingPost
  | AfterDisplayPost "string option"
  | AfterDisplayUpdate "string option"
  | AfterDelete

datatype seg_next =
    Suspended platform_op seg_pc
  | Finished
  | Thrown string

text \<open>The display \<^verbatim>\<open>updateDisplay\<close> computes, and the call it makes (none for no message and an empty display).\<close>

definition display_text :: "string option \<Rightarrow> ctx_state \<Rightarrow> string" where
  "display_text eventFilename c =
     (if isWorking c then buildStatusDisplay eventFilename c @ '' ...''
      else if finalText c \<noteq> [] then finalText c
      else buildStatusDisplay eventFilename c)"

definition updateDisplay :: "string option \<Rightarrow> ctx_state \<Rightarrow> string option \<Rightarrow> seg_next" where
  "updateDisplay eventFilename c to_log =
     (case truthy (messageId c) of
        Some mid \<Rightarrow> Suspended (OpUpdateMessage mid (display_text eventFilename c)) (AfterDisplayUpdate to_log)
      | None \<Rightarrow>
          if display_text eventFilename c \<noteq> []
          then Suspended (OpPostMessage (display_text eventFilename c)) (AfterDisplayPost to_log)
          else Finished)"

text \<open>The public calls of the context that go through \<^verbatim>\<open>updatePromise\<close>.\<close>

datatype ctx_call =
    CallRespond string bool
  | CallReplaceMessage string
  | CallSetTyping bool
  | CallSetWorking bool
  | CallDeleteMessage

text \<open>
  The callback a call passes to \<^verbatim>\<open>updatePromise.then\<close>, from its start to its first
  \<^verbatim>\<open>await\<close>.
\<close>

fun seg_start :: "string option \<Rightarrow> ctx_state \<Rightarrow> ctx_call \<Rightarrow> ctx_state \<times> seg_next" where
  "seg_start ef c (CallRespond text shouldLog) =
     (if \<not> shouldLog \<and> startsWith text (''_'' @ arrow) then
        (let label = strip_underscores text;
             full = (length (recentTools c) \<ge> 3);
             c' = c\<lparr>recentTools :=
                        (if full then tl (recentTools c) else recentTools c)
                        @ [''<i>'' @ escapeHtml label @ ''</i>''],
                    completedToolCount :=
                        (if full then completedToolCount c + 1 else completedToolCount c)\<rparr>
         in (c', updateDisplay ef c' None))
      else if \<not> shouldLog then (c, updateDisplay ef c None)
      else
        (let c' = c\<lparr>finalText := (if finalText c \<noteq> [] then finalText c @ newline @ text else text)\<rparr>
         in (c', updateDisplay ef c' (Some text))))"
| "seg_start ef c (CallReplaceMessage text) =
     (let c' = c\<lparr>finalText := text\<rparr> in (c', updateDisplay ef c' None))"
| "seg_start ef c (CallSetTyping isTyping) =
     (if truthy (messageId c) = None then (c, Suspended OpSendChatAction AfterChatAction)
      else (c, Finished))"
| "seg_start ef c (CallSetWorking working) =
     (let c' = (if working then c\<lparr>isWorking := working\<rparr>
                else c\<lparr>isWorking := working,
                       completedToolCount := completedToolCount c + length (recentTools c),
                       recentTools := []\<rparr>)
      in (c', updateDisplay ef c' None))"
| "seg_start ef c CallDeleteMessage =
     (case truthy (messageId c) of
        Some mid \<Rightarrow> (c, Suspended (OpDeleteMessage mid) AfterDelete)
      | None \<Rightarrow> (c, Finished))"

text \<open>
  What a callback does once the awaited call has settled. The result carries the message
  \<^verbatim>\<open>logBotResponse\<close> is called with, if it is. The \<^verbatim>\<open>catch\<close> around \<^verbatim>\<open>sendChatAction\<close> ignores
  its failure; a failed post or edit makes the callback throw; the adapter's
  \<^verbatim>\<open>deleteMessage\<close> swallows every error, so it always fulfils. \<open>None\<close>: a settlement of
  the wrong kind.
\<close>

fun seg_resume ::
  "string option \<Rightarrow> ctx_state \<Rightarrow> seg_pc \<Rightarrow> op_result
     \<Rightarrow> (ctx_state \<times> (string \<times> string) option \<times> seg_next) option" where
  "seg_resume ef c AfterChatAction (OpPosted mid) = None"
| "seg_resume ef c AfterChatAction r =
     Some (c, None, Suspended (OpPostMessage (buildStatusDisplay ef c @ '' ...'')) AfterTypingPost)"
| "seg_resume ef c AfterTypingPost (OpPosted mid) = Some (c\<lparr>messageId := Some mid\<rparr>, None, Finished)"
| "seg_resume ef c AfterTypingPost (OpFailed err) = Some (c, None, Thrown err)"
| "seg_resume ef c (AfterDisplayPost to_log) (OpPosted mid) =
     Some (c\<lparr>messageId := Some mid\<rparr>,
           (case to_log of
              None \<Rightarrow> None
            | Some text \<Rightarrow> if mid \<noteq> [] then Some (text, mid) else None),
           Finished)"
| "seg_resume ef c (AfterDisplayPost to_log) (OpFailed err) = Some (c, None, Thrown err)"
| "seg_resume ef c (AfterDisplayUpdate to_log) OpOk =
     Some (c,
           (case to_log of
              None \<Rightarrow> None
            | Some text \<Rightarrow> map_option (Pair text) (truthy (messageId c))),
           Finished)"
| "seg_resume ef c (AfterDisplayUpdate to_log) (OpFailed err) = Some (c, None, Thrown err)"
| "seg_resume ef c AfterDelete OpOk = Some (c\<lparr>messageId := None\<rparr>, None, Finished)"
| "seg_resume ef c pc r = None"

subsection \<open>The \<^verbatim>\<open>updatePromise\<close> chain\<close>

text \<open>
  What the context has done, each entry tagged with the number of the public call it
  belongs to: a platform call issued, its settlement, and a bot response logged.
\<close>

datatype rlog_entry =
    Issued nat platform_op
  | OpSettled nat op_result
  | BotResponseLogged nat string string

fun entry_call :: "rlog_entry \<Rightarrow> nat" where
  "entry_call (Issued n op) = n"
| "entry_call (OpSettled n r) = n"
| "entry_call (BotResponseLogged n text mid) = n"

text \<open>
  \<^verbatim>\<open>updatePromise = updatePromise.then(callback)\<close>: \<open>chain\<close> holds the callbacks registered
  and not yet started, oldest first, each with the number of its call; \<open>current\<close> is the
  callback that has started and is suspended on a platform call; \<open>chain_rejected\<close> is set
  once a callback has thrown, after which \<^verbatim>\<open>then\<close> passes the rejection on without calling
  the callbacks behind it.
\<close>

record render_state =
  eventFilename :: "string option"
  ctx :: ctx_state
  chain :: "(nat \<times> ctx_call) list"
  current :: "(nat \<times> seg_pc) option"
  chain_rejected :: bool
  ncalls :: nat
  rlog :: "rlog_entry list"

definition init_render :: "string option \<Rightarrow> render_state" where
  "init_render ef =
     \<lparr>eventFilename = ef, ctx = init_ctx, chain = [], current = None, chain_rejected = False,
      ncalls = 0, rlog = []\<rparr>"

text \<open>
  A public call, the start of the next callback of the chain, and the settlement of the
  platform call the running callback awaits. They may come in any order.
\<close>

datatype render_event =
    Call ctx_call
  | NextCallback
  | OpSettles op_result

text \<open>
  A call registers its callback. \<^verbatim>\<open>setTyping\<close> does so only under
  \<^verbatim>\<open>isTyping && !messageId\<close>, tested when it is called.
\<close>

definition registers :: "ctx_state \<Rightarrow> ctx_call \<Rightarrow> bool" where
  "registers c call =
     (case call of CallSetTyping isTyping \<Rightarrow> isTyping \<and> truthy (messageId c) = None | _ \<Rightarrow> True)"

definition proceed :: "nat \<Rightarrow> seg_next \<Rightarrow> render_state \<Rightarrow> render_state" where
  "proceed n nxt s =
     (case nxt of
        Suspended op pc \<Rightarrow> s\<lparr>current := Some (n, pc), rlog := rlog s @ [Issued n op]\<rparr>
      | Finished \<Rightarrow> s\<lparr>current := None\<rparr>
      | Thrown err \<Rightarrow> s\<lparr>current := None, chain_rejected := True\<rparr>)"

definition render_step :: "render_state \<Rightarrow> render_event \<Rightarrow> render_state option" where
  "render_step s e =
     (case e of
        Call call \<Rightarrow>
          Some (s\<lparr>ncalls := ncalls s + 1,
                  chain := (if registers (ctx s) call then chain s @ [(ncalls s, call)] else chain s)\<rparr>)
      | NextCallback \<Rightarrow>
          (case (current s, chain s) of
             (None, (n, call) # rest) \<Rightarrow>
               if chain_rejected s then Some (s\<lparr>chain := rest\<rparr>)
               else (case seg_start (eventFilename s) (ctx s) call of
                       (c', nxt) \<Rightarrow> Some (proceed n nxt (s\<lparr>chain := rest, ctx := c'\<rparr>)))
           | _ \<Rightarrow> None)
      | OpSettles r \<Rightarrow>
          (case current s of
             None \<Rightarrow> None
           | Some (n, pc) \<Rightarrow>
               (case seg_resume (eventFilename s) (ctx s) pc r of
                  None \<Rightarrow> None
                | Some (c', logged, nxt) \<Rightarrow>
                    Some (proceed n nxt
                      (s\<lparr>ctx := c',
                         rlog := rlog s @ OpSettled n r #
                           (case logged of None \<Rightarrow> []
                            | Some (text, mid) \<Rightarrow> [BotResponseLogged n text mid])\<rparr>)))))"

fun render_run :: "render_state \<Rightarrow> render_event list \<Rightarrow> render_state option" where
  "render_run s [] = Some s"
| "render_run s (e # es) =
     (case render_step s e of None \<Rightarrow> None | Some s' \<Rightarrow> render_run s' es)"

text \<open>
  Reading the log for overlap: a platform call may be issued only when none is outstanding,
  and a settlement needs an outstanding call. The result says whether a call is outstanding
  at the end, or is \<open>None\<close> when the log breaks the rule.
\<close>

fun ops_one_at_a_time :: "bool \<Rightarrow> rlog_entry list \<Rightarrow> bool option" where
  "ops_one_at_a_time out [] = Some out"
| "ops_one_at_a_time out (Issued n op # l) = (if out then None else ops_one_at_a_time True l)"
| "ops_one_at_a_time out (OpSettled n r # l) = (if out then ops_one_at_a_time False l else None)"
| "ops_one_at_a_time out (x # l) = ops_one_at_a_time out l"

text \<open>The platform calls in the log, in the order issued, each with the number of its public call.\<close>

fun issued_ops :: "rlog_entry list \<Rightarrow> (nat \<times> platform_op) list" where
  "issued_ops [] = []"
| "issued_ops (Issued n op # l) = (n, op) # issued_ops l"
| "issued_ops (x # l) = issued_ops l"

text \<open>
  The invariant of the chain: the log is in call order; the callbacks waiting in the chain
  are in call order and come after everything logged and after the running callback, which
  itself comes after everything logged; and a platform call is outstanding exactly while a
  callback is suspended.
\<close>

definition render_inv :: "render_state \<Rightarrow> bool" where
  "render_inv s =
     (sorted (map entry_call (rlog s))
      \<and> sorted_wrt (<) (map fst (chain s))
      \<and> (\<forall>m\<in>set (map fst (chain s)). m < ncalls s \<and> (\<forall>k\<in>set (map entry_call (rlog s)). k < m))
      \<and> (\<forall>n pc. current s = Some (n, pc) \<longrightarrow>
            n < ncalls s \<and> (\<forall>k\<in>set (map entry_call (rlog s)). k \<le> n)
            \<and> (\<forall>m\<in>set (map fst (chain s)). n < m))
      \<and> (\<forall>k\<in>set (map entry_call (rlog s)). k < ncalls s)
      \<and> ops_one_at_a_time False (rlog s) = Some (current s \<noteq> None)
      \<and> length (recentTools (ctx s)) \<le> 3)"

text \<open>
  Two sequences of events for evaluating the context: three calls interleaved with the
  settlements of the platform calls, and a run that reports four tool labels.
\<close>

definition example_render_trace :: "render_event list" where
  "example_render_trace =
     [Call (CallSetTyping True), Call (CallRespond ''hi'' True), NextCallback, OpSettles OpOk,
      Call (CallSetWorking False), OpSettles (OpPosted ''10''), NextCallback, OpSettles OpOk,
      NextCallback]"



section \<open>Properties\<close>

subsection \<open>Gateway\<close>





subsection \<open>Cross-channel router\<close>

lemma numeric_not_CDG: "matches_numeric s \<Longrightarrow> \<not> matches_CDG s"
  by (auto simp: matches_numeric_def matches_CDG_def all_digits_def is_digit_def
           split: list.splits if_splits)

lemma numeric_not_email: "matches_numeric s \<Longrightarrow> \<not> startsWith s ''email-''"
  by (auto simp: matches_numeric_def startsWith_def all_digits_def is_digit_def
           split: list.splits if_splits)

lemma CDG_not_email: "matches_CDG s \<Longrightarrow> \<not> startsWith s ''email-''"
  by (auto simp: matches_CDG_def startsWith_def split: list.splits)

text \<open>
  Claim C8, as the code has it. The three patterns exclude one another, so whichever rule
  matches decides: a numeric id resolves to the adapter named \<^verbatim>\<open>telegram\<close>, an id starting
  with C, D or G to the one named \<^verbatim>\<open>slack\<close>, an id starting with \<^verbatim>\<open>email-\<close> to the one named
  \<^verbatim>\<open>email\<close> (the first adapter of that name in the list, none when there is no such adapter),
  and every other id to none. For every call whose abort signal is not already set,
  \<^verbatim>\<open>execute\<close> returns a text result and throws nothing: the "No adapter found" text when the
  resolution fails, and "Failed to send: ..." carrying the message of the exception when
  \<^verbatim>\<open>postMessage\<close> throws.
\<close>

theorem send_message_routes_and_reports:
  "(matches_numeric channel \<longrightarrow>
      resolveAdapter channel adapters = find (\<lambda>a. name a = ''telegram'') adapters)
   \<and> (matches_CDG channel \<longrightarrow>
      resolveAdapter channel adapters = find (\<lambda>a. name a = ''slack'') adapters)
   \<and> (startsWith channel ''email-'' \<longrightarrow>
      resolveAdapter channel adapters = find (\<lambda>a. name a = ''email'') adapters)
   \<and> (\<not> matches_numeric channel \<and> \<not> matches_CDG channel \<and> \<not> startsWith channel ''email-'' \<longrightarrow>
      resolveAdapter channel adapters = None)
   \<and> (\<not> aborted \<longrightarrow>
        (\<exists>t. execute basename adapters aborted channel text attachments = Inr (ToolText t))
      \<and> (resolveAdapter channel adapters = None \<longrightarrow>
           execute basename adapters aborted channel text attachments =
             Inr (ToolText (''No adapter found for channel '' @ dquote @ channel @ dquote @
               ''. Available patterns: numeric (Telegram), C/D/G prefix (Slack), email-{address} (Email).'')))
      \<and> (\<forall>a e. resolveAdapter channel adapters = Some a
             \<and> postMessage a channel text
                  (map_option (map (\<lambda>filePath. (filePath, basename filePath))) attachments) = Inl e \<longrightarrow>
           execute basename adapters aborted channel text attachments =
             Inr (ToolText (''Failed to send: '' @ e))))"
proof -
  have r1: "matches_numeric channel \<longrightarrow>
      resolveAdapter channel adapters = find (\<lambda>a. name a = ''telegram'') adapters"
    by (simp add: resolveAdapter_def)
  have r2: "matches_CDG channel \<longrightarrow>
      resolveAdapter channel adapters = find (\<lambda>a. name a = ''slack'') adapters"
    using numeric_not_CDG [of channel] by (auto simp: resolveAdapter_def)
  have r3: "startsWith channel ''email-'' \<longrightarrow>
      resolveAdapter channel adapters = find (\<lambda>a. name a = ''email'') adapters"
    using numeric_not_email [of channel] CDG_not_email [of channel]
    by (auto simp: resolveAdapter_def)
  have r4: "\<not> matches_numeric channel \<and> \<not> matches_CDG channel \<and> \<not> startsWith channel ''email-'' \<longrightarrow>
      resolveAdapter channel adapters = None"
    by (simp add: resolveAdapter_def)
  have e1: "\<not> aborted \<longrightarrow>
      (\<exists>t. execute basename adapters aborted channel text attachments = Inr (ToolText t))"
    by (simp add: execute_def Let_def split: option.split sum.split)
  have e2: "\<not> aborted \<longrightarrow> resolveAdapter channel adapters = None \<longrightarrow>
           execute basename adapters aborted channel text attachments =
             Inr (ToolText (''No adapter found for channel '' @ dquote @ channel @ dquote @
               ''. Available patterns: numeric (Telegram), C/D/G prefix (Slack), email-{address} (Email).''))"
    by (simp add: execute_def)
  have e3: "\<not> aborted \<longrightarrow> (\<forall>a e. resolveAdapter channel adapters = Some a
             \<and> postMessage a channel text
                  (map_option (map (\<lambda>filePath. (filePath, basename filePath))) attachments) = Inl e \<longrightarrow>
           execute basename adapters aborted channel text attachments =
             Inr (ToolText (''Failed to send: '' @ e)))"
    by (simp add: execute_def Let_def)
  from r1 r2 r3 r4 e1 e2 e3 show ?thesis by blast
qed

lemma stub_names:
  "name telegram_stub = ''telegram''" "name slack_stub = ''slack''" "name email_stub = ''email''"
  by (simp_all add: telegram_stub_def slack_stub_def email_stub_def)

lemma stub_patterns:
  "matches_numeric ''-100123''" "matches_CDG ''C12''" "startsWith ''email-a@b.c'' ''email-''"
  "\<not> matches_numeric ''xyz''" "\<not> matches_CDG ''xyz''" "\<not> startsWith ''xyz'' ''email-''"
  by (simp_all add: matches_numeric_def matches_CDG_def startsWith_def all_digits_def is_digit_def)

theorem send_message_routes_and_reports_witness:
  "resolveAdapter ''-100123'' stub_adapters = Some telegram_stub
   \<and> resolveAdapter ''C12'' stub_adapters = Some slack_stub
   \<and> resolveAdapter ''email-a@b.c'' stub_adapters = Some email_stub
   \<and> resolveAdapter ''xyz'' stub_adapters = None
   \<and> execute id stub_adapters False ''xyz'' ''hello'' None =
       Inr (ToolText (''No adapter found for channel '' @ dquote @ ''xyz'' @ dquote @
         ''. Available patterns: numeric (Telegram), C/D/G prefix (Slack), email-{address} (Email).''))
   \<and> execute id stub_adapters False ''C12'' ''hello'' None =
       Inr (ToolText ''Failed to send: channel_not_found'')"
proof -
  note t1 = send_message_routes_and_reports [of "''-100123''" stub_adapters False id "''hello''" None]
  note t2 = send_message_routes_and_reports [of "''C12''" stub_adapters False id "''hello''" None]
  note t3 = send_message_routes_and_reports [of "''email-a@b.c''" stub_adapters False id "''hello''" None]
  note t4 = send_message_routes_and_reports [of "''xyz''" stub_adapters False id "''hello''" None]
  have a1: "resolveAdapter ''-100123'' stub_adapters = Some telegram_stub"
    using t1 stub_patterns by (simp add: stub_adapters_def stub_names)
  have a2: "resolveAdapter ''C12'' stub_adapters = Some slack_stub"
    using t2 stub_patterns by (simp add: stub_adapters_def stub_names)
  have a3: "resolveAdapter ''email-a@b.c'' stub_adapters = Some email_stub"
    using t3 stub_patterns by (simp add: stub_adapters_def stub_names)
  have a4: "resolveAdapter ''xyz'' stub_adapters = None"
    using t4 stub_patterns by simp
  have a5: "execute id stub_adapters False ''xyz'' ''hello'' None =
       Inr (ToolText (''No adapter found for channel '' @ dquote @ ''xyz'' @ dquote @
         ''. Available patterns: numeric (Telegram), C/D/G prefix (Slack), email-{address} (Email).''))"
    using t4 a4 by simp
  have p: "postMessage slack_stub ''C12'' ''hello''
             (map_option (map (\<lambda>filePath. (filePath, id filePath))) None) = Inl ''channel_not_found''"
    by (simp add: slack_stub_def)
  have a6: "execute id stub_adapters False ''C12'' ''hello'' None =
       Inr (ToolText ''Failed to send: channel_not_found'')"
    using t2 a2 p by simp
  from a1 a2 a3 a4 a5 a6 show ?thesis by blast
qed

text \<open>
  Claim C8 as stated fails for a call whose abort signal is already set: \<^verbatim>\<open>execute\<close> starts
  with \<^verbatim>\<open>if (signal?.aborted) throw new Error("Operation aborted")\<close>, so a call for a channel
  that resolves to no adapter throws instead of returning the text result.
\<close>

theorem send_message_aborted_counterexample:
  "resolveAdapter ''xyz'' [] = None
   \<and> execute id [] True ''xyz'' ''hello'' None = Inl ''Operation aborted''"
  by (simp add: resolveAdapter_def execute_def matches_numeric_def matches_CDG_def
        startsWith_def all_digits_def is_digit_def)

subsection \<open>Protocol errors at the webhook boundary\<close>

text \<open>
  Claim C9. A Slack request whose signature header (or timestamp header) is missing or
  whose signature does not verify is answered 401, and one that is authentic but whose
  body is not valid JSON is answered 400; a Telegram webhook request (POST to
  \<^verbatim>\<open>/telegram/webhook\<close>) whose secret token is missing or differs from the configured one is
  answered 401, and one with the right token whose body is not valid JSON is answered 400.
  In every one of these cases the status is a 4xx and neither \<^verbatim>\<open>dispatchEvent\<close> nor
  \<^verbatim>\<open>processUpdate\<close> is called, so nothing derived from the request reaches a queue or the
  handler.
\<close>

theorem webhook_protocol_errors_rejected:
  "((x_slack_signature req = None \<or> x_slack_request_timestamp req = None
      \<or> (\<exists>t g. x_slack_request_timestamp req = Some t \<and> x_slack_signature req = Some g
               \<and> \<not> verifySignature env t (slack_body req) g))
     \<longrightarrow> (\<exists>msg. slack_dispatch env req = SlackRejected 401 msg))
   \<and> (slack_json_parse env (slack_body req) = None
     \<longrightarrow> (\<exists>msg. slack_dispatch env req = SlackRejected 401 msg)
         \<or> slack_dispatch env req = SlackRejected 400 ''Invalid JSON'')
   \<and> (\<forall>t g. x_slack_request_timestamp req = Some t \<and> x_slack_signature req = Some g
          \<and> t \<noteq> [] \<and> g \<noteq> [] \<and> \<not> too_old env t \<and> verifySignature env t (slack_body req) g
          \<and> slack_json_parse env (slack_body req) = None
     \<longrightarrow> slack_dispatch env req = SlackRejected 400 ''Invalid JSON'')
   \<and> (tg_method treq = ''POST'' \<and> tg_url treq = Some ''/telegram/webhook''
        \<and> (x_telegram_bot_api_secret_token treq = None
            \<or> x_telegram_bot_api_secret_token treq \<noteq> Some secret)
     \<longrightarrow> handleRequest secret parse treq = TelegramRejected 401 ''Invalid secret token'')
   \<and> (tg_method treq = ''POST'' \<and> tg_url treq = Some ''/telegram/webhook''
        \<and> x_telegram_bot_api_secret_token treq = Some secret \<and> secret \<noteq> []
        \<and> parse (tg_body treq) = None
     \<longrightarrow> handleRequest secret parse treq = TelegramRejected 400 ''Invalid JSON'')
   \<and> (x_telegram_bot_api_secret_token treq = None
        \<or> x_telegram_bot_api_secret_token treq \<noteq> Some secret
        \<or> parse (tg_body treq) = None
     \<longrightarrow> (\<exists>code msg. handleRequest secret parse treq = TelegramRejected code msg
            \<and> 400 \<le> code \<and> code < 500))"
proof -
  have s1: "(x_slack_signature req = None \<or> x_slack_request_timestamp req = None
      \<or> (\<exists>t g. x_slack_request_timestamp req = Some t \<and> x_slack_signature req = Some g
               \<and> \<not> verifySignature env t (slack_body req) g))
     \<longrightarrow> (\<exists>msg. slack_dispatch env req = SlackRejected 401 msg)"
    by (auto simp: slack_dispatch_def split: option.splits)
  have s2: "slack_json_parse env (slack_body req) = None
     \<longrightarrow> (\<exists>msg. slack_dispatch env req = SlackRejected 401 msg)
         \<or> slack_dispatch env req = SlackRejected 400 ''Invalid JSON''"
    by (auto simp: slack_dispatch_def split: option.splits)
  have s3: "\<forall>t g. x_slack_request_timestamp req = Some t \<and> x_slack_signature req = Some g
          \<and> t \<noteq> [] \<and> g \<noteq> [] \<and> \<not> too_old env t \<and> verifySignature env t (slack_body req) g
          \<and> slack_json_parse env (slack_body req) = None
     \<longrightarrow> slack_dispatch env req = SlackRejected 400 ''Invalid JSON''"
    by (auto simp: slack_dispatch_def)
  have t1: "tg_method treq = ''POST'' \<and> tg_url treq = Some ''/telegram/webhook''
        \<and> (x_telegram_bot_api_secret_token treq = None
            \<or> x_telegram_bot_api_secret_token treq \<noteq> Some secret)
     \<longrightarrow> handleRequest secret parse treq = TelegramRejected 401 ''Invalid secret token''"
    by (auto simp: handleRequest_def falsy_def)
  have t2: "tg_method treq = ''POST'' \<and> tg_url treq = Some ''/telegram/webhook''
        \<and> x_telegram_bot_api_secret_token treq = Some secret \<and> secret \<noteq> []
        \<and> parse (tg_body treq) = None
     \<longrightarrow> handleRequest secret parse treq = TelegramRejected 400 ''Invalid JSON''"
    by (auto simp: handleRequest_def falsy_def)
  have t3: "x_telegram_bot_api_secret_token treq = None
        \<or> x_telegram_bot_api_secret_token treq \<noteq> Some secret
        \<or> parse (tg_body treq) = None
     \<longrightarrow> (\<exists>code msg. handleRequest secret parse treq = TelegramRejected code msg
            \<and> 400 \<le> code \<and> code < 500)"
    by (auto simp: handleRequest_def falsy_def split: option.splits)
  from s1 s2 s3 t1 t2 t3 show ?thesis by blast
qed

theorem webhook_protocol_errors_rejected_witness:
  "slack_dispatch stub_slack_env
      \<lparr>x_slack_request_timestamp = Some ''1700000000'', x_slack_signature = None,
       slack_body = ''{}''\<rparr> = SlackRejected 401 ''Missing signature headers''
   \<and> slack_dispatch stub_slack_env
      \<lparr>x_slack_request_timestamp = Some ''1700000000'', x_slack_signature = Some ''v0=ff'',
       slack_body = ''{}''\<rparr> = SlackRejected 401 ''Invalid signature''
   \<and> slack_dispatch stub_slack_env
      \<lparr>x_slack_request_timestamp = Some ''1700000000'', x_slack_signature = Some ''v0=ab'',
       slack_body = ''{oops''\<rparr> = SlackRejected 400 ''Invalid JSON''
   \<and> handleRequest ''tok'' stub_parse
      \<lparr>tg_method = ''POST'', tg_url = Some ''/telegram/webhook'',
       x_telegram_bot_api_secret_token = Some ''wrong'', tg_body = ''{}''\<rparr>
       = TelegramRejected 401 ''Invalid secret token''
   \<and> handleRequest ''tok'' stub_parse
      \<lparr>tg_method = ''POST'', tg_url = Some ''/telegram/webhook'',
       x_telegram_bot_api_secret_token = Some ''tok'', tg_body = ''{oops''\<rparr>
       = TelegramRejected 400 ''Invalid JSON''"
proof -
  note w1 = webhook_protocol_errors_rejected
    [of "\<lparr>x_slack_request_timestamp = Some ''1700000000'', x_slack_signature = None,
          slack_body = ''{}''\<rparr>" stub_slack_env
        "\<lparr>tg_method = ''POST'', tg_url = Some ''/telegram/webhook'',
          x_telegram_bot_api_secret_token = Some ''wrong'', tg_body = ''{}''\<rparr>" "''tok''" stub_parse]
  note w2 = webhook_protocol_errors_rejected
    [of "\<lparr>x_slack_request_timestamp = Some ''1700000000'', x_slack_signature = Some ''v0=ff'',
          slack_body = ''{}''\<rparr>" stub_slack_env
        "\<lparr>tg_method = ''POST'', tg_url = Some ''/telegram/webhook'',
          x_telegram_bot_api_secret_token = Some ''tok'', tg_body = ''{oops''\<rparr>" "''tok''" stub_parse]
  note w3 = webhook_protocol_errors_rejected
    [of "\<lparr>x_slack_request_timestamp = Some ''1700000000'', x_slack_signature = Some ''v0=ab'',
          slack_body = ''{oops''\<rparr>" stub_slack_env
        "\<lparr>tg_method = ''POST'', tg_url = Some ''/telegram/webhook'',
          x_telegram_bot_api_secret_token = Some ''tok'', tg_body = ''{oops''\<rparr>" "''tok''" stub_parse]
  have c1: "slack_dispatch stub_slack_env
      \<lparr>x_slack_request_timestamp = Some ''1700000000'', x_slack_signature = None,
       slack_body = ''{}''\<rparr> = SlackRejected 401 ''Missing signature headers''"
    using w1 by (simp add: slack_dispatch_def)
  have c2: "slack_dispatch stub_slack_env
      \<lparr>x_slack_request_timestamp = Some ''1700000000'', x_slack_signature = Some ''v0=ff'',
       slack_body = ''{}''\<rparr> = SlackRejected 401 ''Invalid signature''"
    using w2 by (simp add: slack_dispatch_def verifySignature_def too_old_def stub_slack_env_def)
  have c3: "slack_dispatch stub_slack_env
      \<lparr>x_slack_request_timestamp = Some ''1700000000'', x_slack_signature = Some ''v0=ab'',
       slack_body = ''{oops''\<rparr> = SlackRejected 400 ''Invalid JSON''"
    using w3 by (simp add: verifySignature_def too_old_def stub_slack_env_def stub_parse_def)
  have c4: "handleRequest ''tok'' stub_parse
      \<lparr>tg_method = ''POST'', tg_url = Some ''/telegram/webhook'',
       x_telegram_bot_api_secret_token = Some ''wrong'', tg_body = ''{}''\<rparr>
       = TelegramRejected 401 ''Invalid secret token''"
    using w1 by simp
  have c5: "handleRequest ''tok'' stub_parse
      \<lparr>tg_method = ''POST'', tg_url = Some ''/telegram/webhook'',
       x_telegram_bot_api_secret_token = Some ''tok'', tg_body = ''{oops''\<rparr>
       = TelegramRejected 400 ''Invalid JSON''"
    using w2 by (simp add: stub_parse_def)
  from c1 c2 c3 c4 c5 show ?thesis by blast
qed

subsection \<open>Run state of a channel\<close>

lemma filter_remove_nth:
  "i < length xs \<Longrightarrow> length (filter P (remove_nth i xs)) = length (filter P xs) - (if P (xs ! i) then 1 else 0)"
proof -
  assume a: "i < length xs"
  have "xs = take i xs @ xs ! i # drop (Suc i) xs" using a by (rule id_take_nth_drop)
  then have "filter P xs = filter P (take i xs) @ filter P [xs ! i] @ filter P (drop (Suc i) xs)"
    by (metis append_Cons append_Nil filter_append)
  then show ?thesis by (simp add: remove_nth_def)
qed

lemma filter_update_nth:
  "i < length xs \<Longrightarrow> P (xs ! i) = P y \<Longrightarrow> length (filter P (xs[i := y])) = length (filter P xs)"
proof -
  assume a: "i < length xs" and b: "P (xs ! i) = P y"
  have e1: "xs = take i xs @ xs ! i # drop (Suc i) xs" using a by (rule id_take_nth_drop)
  have e2: "xs[i := y] = take i xs @ y # drop (Suc i) xs" using a by (rule upd_conv_take_nth_drop)
  have "length (filter P xs) = length (filter P (take i xs @ xs ! i # drop (Suc i) xs))" using e1 by simp
  then show ?thesis using b by (simp add: e2)
qed

lemma filter_nth_pos: "i < length xs \<Longrightarrow> P (xs ! i) \<Longrightarrow> 0 < length (filter P xs)"
  by (metis filter_empty_conv length_greater_0_conv nth_mem)

lemma isRunning_finally:
  "isRunning (finally_block cs ch) c = (if c = ch then False else isRunning cs c)"
  by (simp add: isRunning_def finally_block_def split: option.splits)

lemma isRunning_clear: "isRunning (clear_stopMessageTs cs ch) c = isRunning cs c"
  by (simp add: isRunning_def clear_stopMessageTs_def split: option.splits)

lemma isRunning_handleEvent_start:
  "handleEvent_start cs ch = (cs', eff, pc) \<Longrightarrow> isRunning cs' c = (c = ch \<or> isRunning cs c)"
  by (cases "c = ch") (auto simp: isRunning_def handleEvent_start_def Let_def split: option.splits)

lemma isRunning_handleStop_start:
  "handleStop_start cs ch = (cs', eff, pc) \<Longrightarrow> isRunning cs' c = isRunning cs c"
  by (cases "c = ch") (auto simp: isRunning_def handleStop_start_def split: option.splits if_splits)

lemma isRunning_handleStop_resume:
  "handleStop_resume cs ch pc r = Some cs' \<Longrightarrow> isRunning cs' c = isRunning cs c"
  by (cases "(cs, ch, pc, r)" rule: handleStop_resume.cases; cases "c = ch")
     (auto simp: isRunning_def split: option.splits)

lemma handleEvent_resume_continue:
  "handleEvent_resume cs ch pc r = Some (cs', eff, Some pc') \<Longrightarrow> cs' = cs"
  by (cases "(cs, ch, pc, r)" rule: handleEvent_resume.cases)
     (auto split: if_splits option.splits)

lemma handleEvent_resume_return:
  "handleEvent_resume cs ch pc r = Some (cs', eff, None) \<Longrightarrow>
     isRunning cs' c = (if c = ch then False else isRunning cs c)"
  by (cases "(cs, ch, pc, r)" rule: handleEvent_resume.cases)
     (auto simp: isRunning_finally isRunning_clear split: if_splits option.splits)

lemma inv_step:
  assumes inv: "run_flag_inv s"
    and step: "handler_step s e = Some s'"
    and chk: "\<And>ch. e = CallHandleEvent ch \<Longrightarrow> \<not> isRunning (channelStates s) ch"
  shows "run_flag_inv s'"
proof (cases e)
  case (CallHandleEvent ch)
  obtain cs' eff pc where st: "handleEvent_start (channelStates s) ch = (cs', eff, pc)"
    by (cases "handleEvent_start (channelStates s) ch") auto
  have s': "s' = s\<lparr>channelStates := cs', tasks := tasks s @ [RunTask ch pc], effects := effects s @ eff\<rparr>"
    using step CallHandleEvent st by (simp add: handler_step_def)
  have nr: "\<not> isRunning (channelStates s) ch" using chk CallHandleEvent by simp
  show ?thesis
    unfolding run_flag_inv_def
  proof
    fix c
    have "runs_in_flight s' c = runs_in_flight s c + (if c = ch then 1 else 0)"
      by (auto simp: s' runs_in_flight_def)
    moreover have "isRunning (channelStates s') c = (c = ch \<or> isRunning (channelStates s) c)"
      using isRunning_handleEvent_start [OF st] by (simp add: s')
    ultimately show "runs_in_flight s' c = (if isRunning (channelStates s') c then 1 else 0)"
      using inv nr by (auto simp: run_flag_inv_def)
  qed
next
  case (CallHandleStop ch)
  obtain cs' eff pc where st: "handleStop_start (channelStates s) ch = (cs', eff, pc)"
    by (cases "handleStop_start (channelStates s) ch") auto
  have s': "s' = s\<lparr>channelStates := cs', tasks := tasks s @ [StopTask ch pc], effects := effects s @ eff\<rparr>"
    using step CallHandleStop st by (simp add: handler_step_def)
  show ?thesis
    unfolding run_flag_inv_def
  proof
    fix c
    have "runs_in_flight s' c = runs_in_flight s c"
      by (simp add: s' runs_in_flight_def)
    moreover have "isRunning (channelStates s') c = isRunning (channelStates s) c"
      using isRunning_handleStop_start [OF st] by (simp add: s')
    ultimately show "runs_in_flight s' c = (if isRunning (channelStates s') c then 1 else 0)"
      using inv by (simp add: run_flag_inv_def)
  qed
next
  case (Settle i r)
  have i: "i < length (tasks s)"
    using step Settle by (simp add: handler_step_def split: if_splits)
  show ?thesis
  proof (cases "tasks s ! i")
    case (RunTask ch pc)
    obtain cs' eff nxt where rs: "handleEvent_resume (channelStates s) ch pc r = Some (cs', eff, nxt)"
      using step Settle i RunTask
      by (cases "handleEvent_resume (channelStates s) ch pc r") (auto simp: handler_step_def)
    show ?thesis
    proof (cases nxt)
      case None
      have s': "s' = s\<lparr>channelStates := cs', tasks := remove_nth i (tasks s), effects := effects s @ eff\<rparr>"
        using step Settle i RunTask rs None by (simp add: handler_step_def)
      show ?thesis
        unfolding run_flag_inv_def
      proof
        fix c
        have "runs_in_flight s' c = runs_in_flight s c - (if c = ch then 1 else 0)"
          using filter_remove_nth [OF i, of "is_run_of c"] RunTask
          by (auto simp: s' runs_in_flight_def)
        moreover have "isRunning (channelStates s') c = (if c = ch then False else isRunning (channelStates s) c)"
          using handleEvent_resume_return [OF rs [unfolded None]] by (simp add: s')
        ultimately show "runs_in_flight s' c = (if isRunning (channelStates s') c then 1 else 0)"
          using inv by (auto simp: run_flag_inv_def)
      qed
    next
      case (Some pc')
      have s': "s' = s\<lparr>channelStates := cs', tasks := (tasks s)[i := RunTask ch pc'], effects := effects s @ eff\<rparr>"
        using step Settle i RunTask rs Some by (simp add: handler_step_def)
      have cs': "cs' = channelStates s"
        using handleEvent_resume_continue rs Some by blast
      show ?thesis
        unfolding run_flag_inv_def
      proof
        fix c
        have "runs_in_flight s' c = runs_in_flight s c"
          using filter_update_nth [OF i, of "is_run_of c" "RunTask ch pc'"] RunTask
          by (simp add: s' runs_in_flight_def)
        then show "runs_in_flight s' c = (if isRunning (channelStates s') c then 1 else 0)"
          using inv by (simp add: run_flag_inv_def s' cs')
      qed
    qed
  next
    case (StopTask ch pc)
    obtain cs' where rs: "handleStop_resume (channelStates s) ch pc r = Some cs'"
      using step Settle i StopTask
      by (cases "handleStop_resume (channelStates s) ch pc r") (auto simp: handler_step_def)
    have s': "s' = s\<lparr>channelStates := cs', tasks := remove_nth i (tasks s)\<rparr>"
      using step Settle i StopTask rs by (simp add: handler_step_def)
    show ?thesis
      unfolding run_flag_inv_def
    proof
      fix c
      have "runs_in_flight s' c = runs_in_flight s c"
        using filter_remove_nth [OF i, of "is_run_of c"] StopTask
        by (simp add: s' runs_in_flight_def)
      moreover have "isRunning (channelStates s') c = isRunning (channelStates s) c"
        using isRunning_handleStop_resume [OF rs] by (simp add: s')
      ultimately show "runs_in_flight s' c = (if isRunning (channelStates s') c then 1 else 0)"
        using inv by (simp add: run_flag_inv_def)
    qed
  qed
qed

lemma inv_run:
  "run_flag_inv s \<Longrightarrow> handler_run s es = Some s' \<Longrightarrow> callers_check_isRunning s es \<Longrightarrow> run_flag_inv s'"
proof (induction es arbitrary: s)
  case Nil
  then show ?case by simp
next
  case (Cons e es)
  from Cons.prems(2) obtain s1 where s1: "handler_step s e = Some s1" and r: "handler_run s1 es = Some s'"
    by (auto split: option.splits)
  have chk: "\<And>ch. e = CallHandleEvent ch \<Longrightarrow> \<not> isRunning (channelStates s) ch"
    using Cons.prems(3) by auto
  have "run_flag_inv s1" using inv_step [OF Cons.prems(1) s1 chk] by simp
  moreover have "callers_check_isRunning s1 es" using Cons.prems(3) s1 by simp
  ultimately show ?case using Cons.IH r by blast
qed

lemma inv_init: "run_flag_inv init_handler"
  by (simp add: run_flag_inv_def init_handler_def runs_in_flight_def isRunning_def)



text \<open>
  Claim C1, as the code has it. Provided every call of \<^verbatim>\<open>handleEvent\<close> for a conversation
  is made while \<^verbatim>\<open>isRunning(id)\<close> is false (the contract written at
  \<^verbatim>\<open>MomHandler.handleEvent\<close>), then after any sequence of calls and settlements
  \<^verbatim>\<open>isRunning(id)\<close> is true exactly when an invocation of \<^verbatim>\<open>handleEvent\<close> for \<open>id\<close> has
  started and not yet passed its \<^verbatim>\<open>finally\<close> block (whether it ends normally, by a
  rejection or after an abort), and at most one such invocation exists per conversation.
\<close>

theorem isRunning_iff_run_in_flight:
  "handler_run init_handler es = Some s \<Longrightarrow> callers_check_isRunning init_handler es \<Longrightarrow>
     (isRunning (channelStates s) c \<longleftrightarrow> runs_in_flight s c = 1) \<and> runs_in_flight s c \<le> 1"
  using inv_run [OF inv_init, of es s] by (simp add: run_flag_inv_def)

theorem isRunning_iff_run_in_flight_witness:
  "callers_check_isRunning init_handler
     [CallHandleEvent ''c'', Settle 0 Fulfilled, Settle 0 Fulfilled, Settle 0 (Rejected ''boom''),
      CallHandleEvent ''c'', CallHandleEvent ''d'']
   \<and> handler_run init_handler
     [CallHandleEvent ''c'', Settle 0 Fulfilled, Settle 0 Fulfilled, Settle 0 (Rejected ''boom''),
      CallHandleEvent ''c'', CallHandleEvent ''d''] \<noteq> None
   \<and> (isRunning (channelStates (the (handler_run init_handler
     [CallHandleEvent ''c'', Settle 0 Fulfilled, Settle 0 Fulfilled, Settle 0 (Rejected ''boom''),
      CallHandleEvent ''c'', CallHandleEvent ''d'']))) ''c''
      \<longleftrightarrow> runs_in_flight (the (handler_run init_handler
     [CallHandleEvent ''c'', Settle 0 Fulfilled, Settle 0 Fulfilled, Settle 0 (Rejected ''boom''),
      CallHandleEvent ''c'', CallHandleEvent ''d''])) ''c'' = 1)"
proof -
  let ?es = "[CallHandleEvent ''c'', Settle 0 Fulfilled, Settle 0 Fulfilled, Settle 0 (Rejected ''boom''),
      CallHandleEvent ''c'', CallHandleEvent ''d'']"
  have chk: "callers_check_isRunning init_handler ?es"
    by code_simp
  have ne: "handler_run init_handler ?es \<noteq> None"
    by code_simp
  then obtain s where s: "handler_run init_handler ?es = Some s"
    by blast
  from isRunning_iff_run_in_flight [OF s chk, of "''c''"]
  have "isRunning (channelStates s) ''c'' \<longleftrightarrow> runs_in_flight s ''c'' = 1"
    by simp
  with chk ne s show ?thesis by simp
qed

text \<open>
  Claim C1 as stated fails: the handler does not refuse a second \<^verbatim>\<open>handleEvent\<close> for a
  conversation that is running (the heartbeat adapter's \<^verbatim>\<open>enqueueEvent\<close> calls it without
  a check). After two calls for channel \<^verbatim>\<open>c\<close> two runs are in flight at once, and when the
  first one ends (here by a rejection) \<^verbatim>\<open>isRunning\<close> is false although the second run has
  not completed.
\<close>

theorem overlapping_runs_counterexample:
  "observe [CallHandleEvent ''c'', CallHandleEvent ''c''] ''c'' = Some (True, 2)
   \<and> observe [CallHandleEvent ''c'', CallHandleEvent ''c'', Settle 0 (Rejected ''boom'')] ''c''
       = Some (False, 1)"
  by code_simp

subsection \<open>Stop requests\<close>

text \<open>
  Claim C7. \<^verbatim>\<open>handleStop(id)\<close> on a conversation that is not running posts
  \<^verbatim>\<open>_Nothing running_\<close> and nothing else, and leaves every channel state as it was, both
  before the post settles and after (whether the post succeeds or fails); \<^verbatim>\<open>isRunning(id)\<close>
  is still false.
\<close>

theorem handleStop_idle_no_mutation:
  "\<not> isRunning cs channelId \<Longrightarrow>
     handleStop_start cs channelId =
       (cs, [PostMessage channelId ''_Nothing running_''], AwaitNothingRunningPost)
     \<and> handleStop_resume cs channelId AwaitNothingRunningPost (FulfilledPost ts) = Some cs
     \<and> handleStop_resume cs channelId AwaitNothingRunningPost (Rejected err) = Some cs
     \<and> \<not> isRunning (fst (handleStop_start cs channelId)) channelId"
  by (auto simp: isRunning_def handleStop_start_def split: option.splits)

theorem handleStop_idle_no_mutation_witness:
  "\<not> isRunning [''c'' \<mapsto> \<lparr>running = False, stopRequested = True, stopMessageTs = Some ''41''\<rparr>] ''c''
   \<and> handleStop_start
        [''c'' \<mapsto> \<lparr>running = False, stopRequested = True, stopMessageTs = Some ''41''\<rparr>] ''c'' =
       ([''c'' \<mapsto> \<lparr>running = False, stopRequested = True, stopMessageTs = Some ''41''\<rparr>],
        [PostMessage ''c'' ''_Nothing running_''], AwaitNothingRunningPost)
   \<and> handleStop_resume
        [''c'' \<mapsto> \<lparr>running = False, stopRequested = True, stopMessageTs = Some ''41''\<rparr>] ''c''
        AwaitNothingRunningPost (FulfilledPost ''42'') =
       Some [''c'' \<mapsto> \<lparr>running = False, stopRequested = True, stopMessageTs = Some ''41''\<rparr>]"
proof -
  have idle: "\<not> isRunning
      [''c'' \<mapsto> \<lparr>running = False, stopRequested = True, stopMessageTs = Some ''41''\<rparr>] ''c''"
    by (simp add: isRunning_def)
  from handleStop_idle_no_mutation [OF idle, of "''42''" "''e''"] idle
  show ?thesis by blast
qed














subsection \<open>The per-conversation queue\<close>


lemma enqueued_of_append: "enqueued_of ch (xs @ ys) = enqueued_of ch xs @ enqueued_of ch ys"
  by (induction ch xs rule: enqueued_of.induct) auto

lemma started_of_append: "started_of ch (xs @ ys) = started_of ch xs @ started_of ch ys"
  by (induction ch xs rule: started_of.induct) auto

lemma one_at_a_time_append:
  "one_at_a_time ch cur (xs @ ys) =
     (case one_at_a_time ch cur xs of None \<Rightarrow> None | Some cur' \<Rightarrow> one_at_a_time ch cur' ys)"
  by (induction ch cur xs rule: one_at_a_time.induct) auto

lemma filter_remove_nth_other:
  assumes "i < length xs" and "\<not> P (xs ! i)"
  shows "filter P (remove_nth i xs) = filter P xs"
proof -
  have "xs = take i xs @ xs ! i # drop (Suc i) xs" using assms(1) by (rule id_take_nth_drop)
  then have "filter P xs = filter P (take i xs) @ filter P (xs ! i # drop (Suc i) xs)"
    by (metis filter_append)
  then show ?thesis using assms(2) by (simp add: remove_nth_def)
qed

lemma filter_remove_nth_single:
  assumes "i < length xs" and "P (xs ! i)" and "length (filter P xs) = 1"
  shows "filter P (remove_nth i xs) = [] \<and> filter P xs = [xs ! i]"
proof -
  have "xs = take i xs @ xs ! i # drop (Suc i) xs" using assms(1) by (rule id_take_nth_drop)
  then have e: "filter P xs = filter P (take i xs) @ xs ! i # filter P (drop (Suc i) xs)"
    using assms(2) by (metis filter.simps(2) filter_append)
  then have "length (filter P (take i xs)) + length (filter P (drop (Suc i) xs)) = 0"
    using assms(3) by simp
  then have "filter P (take i xs) = [] \<and> filter P (drop (Suc i) xs) = []"
    by simp
  then show ?thesis using e by (simp add: remove_nth_def)
qed

lemma loop_head_inv:
  assumes h: "at_head qs ch0"
  shows "queue_inv (loop_head qs ch0)"
proof (cases "pending qs ch0")
  case Nil
  then have lh: "loop_head qs ch0 = qs\<lparr>processing := (processing qs)(ch0 \<mapsto> False)\<rparr>"
    by (auto simp: loop_head_def pending_def split: option.splits list.splits)
  have p: "pending (loop_head qs ch0) ch = pending qs ch" for ch
    by (simp add: lh pending_def)
  have ip: "is_processing (loop_head qs ch0) ch = (ch \<noteq> ch0 \<and> is_processing qs ch)" for ch
    by (simp add: lh is_processing_def)
  have lo: "loops_of (loop_head qs ch0) ch = loops_of qs ch" for ch
    by (simp add: lh loops_of_def)
  have lg: "qlog (loop_head qs ch0) = qlog qs"
    by (simp add: lh)
  have "started_of ch0 (qlog qs) @ pending qs ch0 = enqueued_of ch0 (qlog qs)"
    using h unfolding at_head_def by blast
  then have a0: "started_of ch0 (qlog qs) = enqueued_of ch0 (qlog qs)"
    using Nil by simp
  show ?thesis
    unfolding queue_inv_def
  proof
    fix ch
    show "length (loops_of (loop_head qs ch0) ch) = (if is_processing (loop_head qs ch0) ch then 1 else 0)
          \<and> (\<not> is_processing (loop_head qs ch0) ch \<longrightarrow> pending (loop_head qs ch0) ch = [])
          \<and> started_of ch (qlog (loop_head qs ch0)) @ pending (loop_head qs ch0) ch
               = enqueued_of ch (qlog (loop_head qs ch0))
          \<and> one_at_a_time ch None (qlog (loop_head qs ch0)) =
              Some (case loops_of (loop_head qs ch0) ch of [] \<Rightarrow> None | l # ls \<Rightarrow> Some (snd l))"
      using h Nil a0 unfolding p ip lo lg at_head_def
      by (cases "ch = ch0") auto
  qed
next
  case (Cons w rest)
  then have q: "queues qs ch0 = Some (w # rest)"
    by (auto simp: pending_def split: option.splits)
  have lh: "loop_head qs ch0 = qs\<lparr>queues := (queues qs)(ch0 \<mapsto> rest),
             loops := loops qs @ [(ch0, w)], qlog := qlog qs @ [Started ch0 w]\<rparr>"
    by (simp add: loop_head_def q)
  have p: "pending (loop_head qs ch0) ch = (if ch = ch0 then rest else pending qs ch)" for ch
    by (simp add: lh pending_def)
  have ip: "is_processing (loop_head qs ch0) ch = is_processing qs ch" for ch
    by (simp add: lh is_processing_def)
  have lo: "loops_of (loop_head qs ch0) ch = (if ch = ch0 then loops_of qs ch @ [(ch0, w)] else loops_of qs ch)" for ch
    by (simp add: lh loops_of_def)
  have st: "started_of ch (qlog (loop_head qs ch0)) = (if ch = ch0 then started_of ch (qlog qs) @ [w] else started_of ch (qlog qs))" for ch
    by (simp add: lh started_of_append)
  have en: "enqueued_of ch (qlog (loop_head qs ch0)) = enqueued_of ch (qlog qs)" for ch
    by (simp add: lh enqueued_of_append)
  have oa: "one_at_a_time ch None (qlog (loop_head qs ch0)) =
       (case one_at_a_time ch None (qlog qs) of None \<Rightarrow> None
        | Some cur \<Rightarrow> if ch = ch0 then (if cur = None then Some (Some w) else None) else Some cur)" for ch
    by (simp add: lh one_at_a_time_append split: option.splits)
  have "started_of ch0 (qlog qs) @ pending qs ch0 = enqueued_of ch0 (qlog qs)"
    using h unfolding at_head_def by blast
  then have a: "started_of ch0 (qlog qs) @ w # rest = enqueued_of ch0 (qlog qs)"
    using Cons by simp
  show ?thesis
    unfolding queue_inv_def
  proof
    fix ch
    show "length (loops_of (loop_head qs ch0) ch) = (if is_processing (loop_head qs ch0) ch then 1 else 0)
          \<and> (\<not> is_processing (loop_head qs ch0) ch \<longrightarrow> pending (loop_head qs ch0) ch = [])
          \<and> started_of ch (qlog (loop_head qs ch0)) @ pending (loop_head qs ch0) ch
               = enqueued_of ch (qlog (loop_head qs ch0))
          \<and> one_at_a_time ch None (qlog (loop_head qs ch0)) =
              Some (case loops_of (loop_head qs ch0) ch of [] \<Rightarrow> None | l # ls \<Rightarrow> Some (snd l))"
      using h a unfolding p ip lo st en oa at_head_def
      by (cases "ch = ch0") auto
  qed
qed

lemma at_head_after_settle:
  assumes inv: "queue_inv qs" and i: "i < length (loops qs)" and l: "loops qs ! i = (ch0, w)"
    and ex: "extra = [] \<or> extra = [QueueError err]"
  shows "at_head (qs\<lparr>loops := remove_nth i (loops qs),
                     qlog := qlog qs @ Settled ch0 w # extra\<rparr>) ch0"
proof -
  let ?qs' = "qs\<lparr>loops := remove_nth i (loops qs), qlog := qlog qs @ Settled ch0 w # extra\<rparr>"
  have pos: "0 < length (loops_of qs ch0)"
    using i l unfolding loops_of_def
    by (metis (mono_tags, lifting) filter_empty_conv fst_conv length_greater_0_conv nth_mem)
  have one: "length (loops_of qs ch0) = 1" and proc: "is_processing qs ch0"
    using inv pos by (auto simp: queue_inv_def split: if_splits)
  have single: "filter (\<lambda>l. fst l = ch0) (remove_nth i (loops qs)) = []
                \<and> filter (\<lambda>l. fst l = ch0) (loops qs) = [loops qs ! i]"
    using filter_remove_nth_single [OF i, of "\<lambda>l. fst l = ch0"] l one
    by (simp add: loops_of_def)
  have lo0: "loops_of ?qs' ch0 = []" and cur0: "loops_of qs ch0 = [(ch0, w)]"
    using single l by (simp_all add: loops_of_def)
  have lo: "ch \<noteq> ch0 \<Longrightarrow> loops_of ?qs' ch = loops_of qs ch" for ch
    using filter_remove_nth_other [OF i, of "\<lambda>l. fst l = ch"] l
    by (simp add: loops_of_def)
  have p: "pending ?qs' ch = pending qs ch" for ch
    by (simp add: pending_def)
  have ip: "is_processing ?qs' ch = is_processing qs ch" for ch
    by (simp add: is_processing_def)
  have st: "started_of ch (qlog ?qs') = started_of ch (qlog qs)" for ch
    using ex by (auto simp: started_of_append)
  have en: "enqueued_of ch (qlog ?qs') = enqueued_of ch (qlog qs)" for ch
    using ex by (auto simp: enqueued_of_append)
  have oa0: "one_at_a_time ch0 None (qlog ?qs') = Some None"
    using inv cur0 ex by (auto simp: queue_inv_def one_at_a_time_append)
  have inv_ch: "one_at_a_time ch None (qlog qs) =
              Some (case loops_of qs ch of [] \<Rightarrow> None | l # ls \<Rightarrow> Some (snd l))" for ch
    using inv by (simp add: queue_inv_def)
  have oa: "ch \<noteq> ch0 \<Longrightarrow> one_at_a_time ch None (qlog ?qs') = one_at_a_time ch None (qlog qs)" for ch
    using ex inv_ch [of ch] by (auto simp: one_at_a_time_append)
  show ?thesis
    unfolding at_head_def
  proof (intro conjI allI impI)
    show "is_processing ?qs' ch0" using proc ip by simp
    show "loops_of ?qs' ch0 = []" by (rule lo0)
    show "one_at_a_time ch0 None (qlog ?qs') = Some None" by (rule oa0)
    show "started_of ch (qlog ?qs') @ pending ?qs' ch = enqueued_of ch (qlog ?qs')" for ch
      unfolding st en p using inv by (simp add: queue_inv_def)
    show "length (loops_of ?qs' ch) = (if is_processing ?qs' ch then 1 else 0)" if "ch \<noteq> ch0" for ch
      unfolding lo [OF that] ip using inv by (simp add: queue_inv_def)
    show "pending ?qs' ch = []" if "ch \<noteq> ch0" "\<not> is_processing ?qs' ch" for ch
      using that inv unfolding p ip by (simp add: queue_inv_def)
    show "one_at_a_time ch None (qlog ?qs') =
            Some (case loops_of ?qs' ch of [] \<Rightarrow> None | l # ls \<Rightarrow> Some (snd l))" if "ch \<noteq> ch0" for ch
      unfolding lo [OF that] oa [OF that] by (rule inv_ch)
  qed
qed

lemma processQueue_resume_inv:
  assumes inv: "queue_inv qs" and r: "processQueue_resume qs i rejected = Some qs'"
  shows "queue_inv qs'"
proof -
  have i: "i < length (loops qs)"
    using r by (simp add: processQueue_resume_def split: if_splits)
  obtain ch0 w where l: "loops qs ! i = (ch0, w)"
    by (cases "loops qs ! i") auto
  let ?extra = "case rejected of None \<Rightarrow> [] | Some err \<Rightarrow> [QueueError err]"
  have ex: "?extra = [] \<or> ?extra = [QueueError (case rejected of None \<Rightarrow> [] | Some err \<Rightarrow> err)]"
    by (cases rejected) auto
  have qs': "qs' = loop_head (qs\<lparr>loops := remove_nth i (loops qs),
                     qlog := qlog qs @ Settled ch0 w # ?extra\<rparr>) ch0"
    using r i l by (simp add: processQueue_resume_def)
  show ?thesis
    unfolding qs' by (rule loop_head_inv [OF at_head_after_settle [OF inv i l ex]])
qed

lemma enqueueWork_inv:
  assumes inv: "queue_inv qs"
  shows "queue_inv (enqueueWork qs ch0 w)"
proof (cases "is_processing qs ch0")
  case True
  let ?qs' = "qs\<lparr>queues := (queues qs)(ch0 \<mapsto> pending qs ch0 @ [w]), qlog := qlog qs @ [Enqueued ch0 w]\<rparr>"
  have e: "enqueueWork qs ch0 w = ?qs'"
    using True by (simp add: enqueueWork_def processQueue_def is_processing_def)
  have p: "pending ?qs' ch = (if ch = ch0 then pending qs ch @ [w] else pending qs ch)" for ch
    by (simp add: pending_def)
  have ip: "is_processing ?qs' ch = is_processing qs ch" for ch
    by (simp add: is_processing_def)
  have lo: "loops_of ?qs' ch = loops_of qs ch" for ch
    by (simp add: loops_of_def)
  have st: "started_of ch (qlog ?qs') = started_of ch (qlog qs)" for ch
    by (simp add: started_of_append)
  have en: "enqueued_of ch (qlog ?qs') = (if ch = ch0 then enqueued_of ch (qlog qs) @ [w] else enqueued_of ch (qlog qs))" for ch
    by (simp add: enqueued_of_append)
  have oa: "one_at_a_time ch None (qlog ?qs') = one_at_a_time ch None (qlog qs)" for ch
    using inv by (simp add: one_at_a_time_append queue_inv_def)
  show ?thesis
    unfolding e queue_inv_def
  proof
    fix ch
    show "length (loops_of ?qs' ch) = (if is_processing ?qs' ch then 1 else 0)
          \<and> (\<not> is_processing ?qs' ch \<longrightarrow> pending ?qs' ch = [])
          \<and> started_of ch (qlog ?qs') @ pending ?qs' ch = enqueued_of ch (qlog ?qs')
          \<and> one_at_a_time ch None (qlog ?qs') =
              Some (case loops_of ?qs' ch of [] \<Rightarrow> None | l # ls \<Rightarrow> Some (snd l))"
      unfolding p ip lo st en oa using inv True
      by (cases "ch = ch0") (auto simp: queue_inv_def)
  qed
next
  case False
  let ?qs' = "qs\<lparr>queues := (queues qs)(ch0 \<mapsto> pending qs ch0 @ [w]), qlog := qlog qs @ [Enqueued ch0 w],
                 processing := (processing qs)(ch0 \<mapsto> True)\<rparr>"
  have e: "enqueueWork qs ch0 w = loop_head ?qs' ch0"
    using False by (simp add: enqueueWork_def processQueue_def is_processing_def)
  have p: "pending ?qs' ch = (if ch = ch0 then pending qs ch @ [w] else pending qs ch)" for ch
    by (simp add: pending_def)
  have ip: "is_processing ?qs' ch = (ch = ch0 \<or> is_processing qs ch)" for ch
    by (simp add: is_processing_def)
  have lo: "loops_of ?qs' ch = loops_of qs ch" for ch
    by (simp add: loops_of_def)
  have st: "started_of ch (qlog ?qs') = started_of ch (qlog qs)" for ch
    by (simp add: started_of_append)
  have en: "enqueued_of ch (qlog ?qs') = (if ch = ch0 then enqueued_of ch (qlog qs) @ [w] else enqueued_of ch (qlog qs))" for ch
    by (simp add: enqueued_of_append)
  have oa: "one_at_a_time ch None (qlog ?qs') = one_at_a_time ch None (qlog qs)" for ch
    using inv by (simp add: one_at_a_time_append queue_inv_def)
  have "at_head ?qs' ch0"
    unfolding at_head_def p ip lo st en oa using inv False
    by (auto simp: queue_inv_def)
  then show ?thesis
    unfolding e by (rule loop_head_inv)
qed

lemma enqueueEvent_inv:
  assumes inv: "queue_inv qs"
  shows "queue_inv (fst (enqueueEvent qs e))"
proof (cases "length (pending qs (ev_channel e)) \<ge> 5")
  case True
  let ?qs' = "qs\<lparr>qlog := qlog qs @ [QueueFull (ev_channel e) e]\<rparr>"
  have eq: "fst (enqueueEvent qs e) = ?qs'"
    using True by (simp add: enqueueEvent_def)
  have p: "pending ?qs' ch = pending qs ch" for ch
    by (simp add: pending_def)
  have ip: "is_processing ?qs' ch = is_processing qs ch" for ch
    by (simp add: is_processing_def)
  have lo: "loops_of ?qs' ch = loops_of qs ch" for ch
    by (simp add: loops_of_def)
  have st: "started_of ch (qlog ?qs') = started_of ch (qlog qs)" for ch
    by (simp add: started_of_append)
  have en: "enqueued_of ch (qlog ?qs') = enqueued_of ch (qlog qs)" for ch
    by (simp add: enqueued_of_append)
  have oa: "one_at_a_time ch None (qlog ?qs') = one_at_a_time ch None (qlog qs)" for ch
    using inv by (simp add: one_at_a_time_append queue_inv_def)
  show ?thesis
    unfolding eq queue_inv_def p ip lo st en oa using inv by (simp add: queue_inv_def)
next
  case False
  then show ?thesis
    using enqueueWork_inv [OF inv] by (simp add: enqueueEvent_def)
qed

lemma queue_step_inv: "queue_inv qs \<Longrightarrow> queue_step qs e = Some qs' \<Longrightarrow> queue_inv qs'"
  by (cases e) (auto simp: queue_step_def enqueueEvent_inv enqueueWork_inv processQueue_resume_inv)

lemma queue_run_inv: "queue_inv qs \<Longrightarrow> queue_run qs es = Some qs' \<Longrightarrow> queue_inv qs'"
  by (induction es arbitrary: qs) (auto split: option.splits dest: queue_step_inv)

lemma queue_inv_init: "queue_inv init_queues"
  by (simp add: queue_inv_def init_queues_def loops_of_def is_processing_def pending_def)


lemma find_loop_Some: "find_loop ch ls = Some i \<Longrightarrow> i < length ls \<and> fst (ls ! i) = ch"
  by (induction ls arbitrary: i) (auto split: if_splits)

lemma find_loop_None: "find_loop ch ls = None \<Longrightarrow> filter (\<lambda>l. fst l = ch) ls = []"
  by (induction ls) (auto split: if_splits)

lemma find_loop_empty: "filter (\<lambda>l. fst l = ch) ls = [] \<Longrightarrow> find_loop ch ls = None"
  by (induction ls) (auto split: if_splits)

lemma queue_inv_loops:
  "queue_inv qs \<Longrightarrow> length (loops_of qs ch) = (if is_processing qs ch then 1 else 0)"
  by (simp add: queue_inv_def)

lemma queue_inv_idle:
  assumes inv: "queue_inv qs" and np: "\<not> is_processing qs ch"
  shows "pending qs ch = [] \<and> started_of ch (qlog qs) = enqueued_of ch (qlog qs)
         \<and> one_at_a_time ch None (qlog qs) = Some None"
proof -
  have a: "length (loops_of qs ch) = (if is_processing qs ch then 1 else 0)"
    and b: "\<not> is_processing qs ch \<longrightarrow> pending qs ch = []"
    and c: "started_of ch (qlog qs) @ pending qs ch = enqueued_of ch (qlog qs)"
    and d: "one_at_a_time ch None (qlog qs) =
              Some (case loops_of qs ch of [] \<Rightarrow> None | l # ls \<Rightarrow> Some (snd l))"
    using inv unfolding queue_inv_def by blast+
  from a np have "loops_of qs ch = []" by simp
  with b c d np show ?thesis by simp
qed

lemma resume_own_channel:
  assumes i: "i < length (loops qs)" and l: "loops qs ! i = (ch, w)"
  shows "\<exists>qs'. processQueue_resume qs i rejected = Some qs'
           \<and> enqueued_of ch (qlog qs') = enqueued_of ch (qlog qs)
           \<and> pending qs' ch = tl (pending qs ch)
           \<and> (pending qs ch = [] \<longrightarrow> \<not> is_processing qs' ch)"
proof -
  let ?extra = "case rejected of None \<Rightarrow> [] | Some err \<Rightarrow> [QueueError err]"
  let ?q = "qs\<lparr>loops := remove_nth i (loops qs), qlog := qlog qs @ Settled ch w # ?extra\<rparr>"
  have r: "processQueue_resume qs i rejected = Some (loop_head ?q ch)"
    using i l by (simp add: processQueue_resume_def)
  have ex: "enqueued_of ch ?extra = []"
    by (cases rejected) auto
  show ?thesis
  proof (cases "pending qs ch")
    case Nil
    then have "loop_head ?q ch = ?q\<lparr>processing := (processing ?q)(ch \<mapsto> False)\<rparr>"
      by (auto simp: loop_head_def pending_def split: option.splits list.splits)
    then show ?thesis
      using r Nil ex by (simp add: enqueued_of_append pending_def is_processing_def)
  next
    case (Cons w' rest)
    then have "queues ?q ch = Some (w' # rest)"
      by (auto simp: pending_def split: option.splits)
    then have "loop_head ?q ch = ?q\<lparr>queues := (queues ?q)(ch \<mapsto> rest),
             loops := loops ?q @ [(ch, w')], qlog := qlog ?q @ [Started ch w']\<rparr>"
      by (simp add: loop_head_def)
    then show ?thesis
      using r Cons ex by (simp add: enqueued_of_append pending_def)
  qed
qed

lemma drain_lemma:
  "queue_inv qs \<Longrightarrow> length (pending qs ch) < n \<Longrightarrow>
     queue_inv (drain n rej ch qs) \<and> \<not> is_processing (drain n rej ch qs) ch
     \<and> enqueued_of ch (qlog (drain n rej ch qs)) = enqueued_of ch (qlog qs)"
proof (induction n arbitrary: qs)
  case 0
  then show ?case by simp
next
  case (Suc n)
  show ?case
  proof (cases "find_loop ch (loops qs)")
    case None
    then have "loops_of qs ch = []"
      by (simp add: loops_of_def find_loop_None)
    then have "\<not> is_processing qs ch"
      using queue_inv_loops [OF Suc.prems(1), of ch] by (auto split: if_splits)
    then show ?thesis using None Suc.prems(1) by simp
  next
    case (Some i)
    then have i: "i < length (loops qs)" and f: "fst (loops qs ! i) = ch"
      using find_loop_Some by blast+
    then have l: "loops qs ! i = (ch, snd (loops qs ! i))"
      by (metis prod.collapse)
    from resume_own_channel [OF i l, of "rej (snd (loops qs ! i))"]
    obtain qs' where r: "processQueue_resume qs i (rej (snd (loops qs ! i))) = Some qs'"
      and e: "enqueued_of ch (qlog qs') = enqueued_of ch (qlog qs)"
      and p: "pending qs' ch = tl (pending qs ch)"
      and np: "pending qs ch = [] \<longrightarrow> \<not> is_processing qs' ch"
      by blast
    have inv': "queue_inv qs'"
      using processQueue_resume_inv [OF Suc.prems(1) r] .
    have d: "drain (Suc n) rej ch qs = drain n rej ch qs'"
      using Some r by simp
    show ?thesis
    proof (cases "pending qs ch")
      case Nil
      then have idle: "\<not> is_processing qs' ch" using np by simp
      have "drain n rej ch qs' = qs'"
      proof (cases n)
        case 0
        then show ?thesis by simp
      next
        case (Suc m)
        have "loops_of qs' ch = []"
          using queue_inv_loops [OF inv', of ch] idle by simp
        then have "find_loop ch (loops qs') = None"
          by (simp add: find_loop_empty loops_of_def [symmetric])
        then show ?thesis using Suc by simp
      qed
      then show ?thesis using d inv' idle e by simp
    next
      case (Cons w' rest)
      then have "length (pending qs' ch) < n"
        using p Suc.prems(2) by simp
      from Suc.IH [OF inv' this] show ?thesis
        using d e by simp
    qed
  qed
qed

lemma drain_all_started:
  assumes "queue_inv qs" and "length (pending qs ch) < n"
  shows "started_of ch (qlog (drain n rej ch qs)) = enqueued_of ch (qlog qs)
         \<and> one_at_a_time ch None (qlog (drain n rej ch qs)) = Some None
         \<and> pending (drain n rej ch qs) ch = []"
  using drain_lemma [OF assms, of rej] queue_inv_idle [of "drain n rej ch qs" ch]
  by simp


lemma exception_does_not_stop_loop:
  assumes i: "i < length (loops qs)" and l: "loops qs ! i = (ch, w)" and p: "pending qs ch = w' # rest"
  shows "\<exists>qs'. processQueue_resume qs i (Some err) = Some qs'
           \<and> qlog qs' = qlog qs @ [Settled ch w, QueueError err, Started ch w']
           \<and> pending qs' ch = rest"
proof -
  let ?q = "qs\<lparr>loops := remove_nth i (loops qs), qlog := qlog qs @ [Settled ch w, QueueError err]\<rparr>"
  have r: "processQueue_resume qs i (Some err) = Some (loop_head ?q ch)"
    using i l by (simp add: processQueue_resume_def)
  have "queues ?q ch = Some (w' # rest)"
    using p by (auto simp: pending_def split: option.splits)
  then have "loop_head ?q ch = ?q\<lparr>queues := (queues ?q)(ch \<mapsto> rest),
             loops := loops ?q @ [(ch, w')], qlog := qlog ?q @ [Started ch w']\<rparr>"
    by (simp add: loop_head_def)
  then show ?thesis
    using r by (simp add: pending_def)
qed


text \<open>
  Claim C5. After any sequence of pushes (\<^verbatim>\<open>enqueueWork\<close>, \<^verbatim>\<open>enqueueEvent\<close>) and settlements,
  in any interleaving and on any channels: the items called for a conversation, followed by
  the ones still pending, are the items pushed for it, in the order they were pushed; the
  log never shows an item of the conversation called while another one of it has not
  settled, and the conversation has at most one suspended drain loop; whichever items
  throw, letting the conversation drain calls every pushed item and ends with none
  executing; and when the awaited item rejects while another is pending, the rejection is
  logged and the next item is called in the same step.
\<close>

theorem drain_loop_sequential_fifo:
  "queue_run init_queues es = Some qs \<Longrightarrow>
     started_of ch (qlog qs) @ pending qs ch = enqueued_of ch (qlog qs)
   \<and> one_at_a_time ch None (qlog qs) \<noteq> None
   \<and> length (loops_of qs ch) \<le> 1
   \<and> (length (pending qs ch) < n \<longrightarrow>
         started_of ch (qlog (drain n rej ch qs)) = enqueued_of ch (qlog qs)
       \<and> one_at_a_time ch None (qlog (drain n rej ch qs)) = Some None)
   \<and> (\<forall>i w w' rest err. i < length (loops qs) \<and> loops qs ! i = (ch, w) \<and> pending qs ch = w' # rest \<longrightarrow>
         (\<exists>qs'. processQueue_resume qs i (Some err) = Some qs'
           \<and> qlog qs' = qlog qs @ [Settled ch w, QueueError err, Started ch w']
           \<and> pending qs' ch = rest))"
proof -
  assume run: "queue_run init_queues es = Some qs"
  have inv: "queue_inv qs"
    using queue_run_inv [OF queue_inv_init run] .
  have a: "started_of ch (qlog qs) @ pending qs ch = enqueued_of ch (qlog qs)"
    and b: "one_at_a_time ch None (qlog qs) =
              Some (case loops_of qs ch of [] \<Rightarrow> None | l # ls \<Rightarrow> Some (snd l))"
    using inv unfolding queue_inv_def by blast+
  have c: "length (loops_of qs ch) \<le> 1"
    using queue_inv_loops [OF inv, of ch] by simp
  have d: "length (pending qs ch) < n \<longrightarrow>
         started_of ch (qlog (drain n rej ch qs)) = enqueued_of ch (qlog qs)
       \<and> one_at_a_time ch None (qlog (drain n rej ch qs)) = Some None"
    using drain_all_started [OF inv, of ch n rej] by simp
  have e: "\<forall>i w w' rest err. i < length (loops qs) \<and> loops qs ! i = (ch, w) \<and> pending qs ch = w' # rest \<longrightarrow>
         (\<exists>qs'. processQueue_resume qs i (Some err) = Some qs'
           \<and> qlog qs' = qlog qs @ [Settled ch w, QueueError err, Started ch w']
           \<and> pending qs' ch = rest)"
    using exception_does_not_stop_loop by blast
  from a b c d e show ?thesis by simp
qed


theorem drain_loop_sequential_fifo_witness:
  "queue_run init_queues example_queue_trace \<noteq> None
   \<and> length (pending (the (queue_run init_queues example_queue_trace)) ''c'') < 3
   \<and> started_of ''c'' (qlog (drain 3 all_throw ''c'' (the (queue_run init_queues example_queue_trace))))
       = [HandleEventWork (ev ''u'') False, HandleEventWork (ev ''1'') True,
          HandleEventWork (ev ''2'') True]
   \<and> map_option qlog (processQueue_resume (the (queue_run init_queues example_queue_trace)) 0 (Some ''boom''))
       = Some (qlog (the (queue_run init_queues example_queue_trace)) @
           [Settled ''c'' (HandleEventWork (ev ''u'') False), QueueError ''boom'',
            Started ''c'' (HandleEventWork (ev ''1'') True)])"
proof -
  have ne: "queue_run init_queues example_queue_trace \<noteq> None"
    by code_simp
  then obtain qs where qs: "queue_run init_queues example_queue_trace = Some qs"
    by blast
  have len: "length (pending (the (queue_run init_queues example_queue_trace)) ''c'') < 3"
    by code_simp
  have en: "enqueued_of ''c'' (qlog (the (queue_run init_queues example_queue_trace)))
       = [HandleEventWork (ev ''u'') False, HandleEventWork (ev ''1'') True,
          HandleEventWork (ev ''2'') True]"
    by code_simp
  have lp: "0 < length (loops (the (queue_run init_queues example_queue_trace)))
      \<and> loops (the (queue_run init_queues example_queue_trace)) ! 0
          = (''c'', HandleEventWork (ev ''u'') False)
      \<and> pending (the (queue_run init_queues example_queue_trace)) ''c''
          = HandleEventWork (ev ''1'') True # [HandleEventWork (ev ''2'') True]"
    by code_simp
  note t = drain_loop_sequential_fifo [OF qs, of "''c''" 3 all_throw]
  have d: "started_of ''c'' (qlog (drain 3 all_throw ''c'' qs)) = enqueued_of ''c'' (qlog qs)"
    using t len qs by simp
  from t lp qs obtain qs' where
    r: "processQueue_resume qs 0 (Some ''boom'') = Some qs'"
    and l: "qlog qs' = qlog qs @ [Settled ''c'' (HandleEventWork (ev ''u'') False), QueueError ''boom'',
            Started ''c'' (HandleEventWork (ev ''1'') True)]"
    by (metis option.sel)
  show ?thesis
    using ne len d en r l qs by simp
qed
lemma enqueueEvent_accept_blocked:
  assumes "is_processing qs (ev_channel e)" and "length (pending qs (ev_channel e)) < 5"
  shows "enqueueEvent qs e =
          (qs\<lparr>queues := (queues qs)(ev_channel e \<mapsto> pending qs (ev_channel e) @ [HandleEventWork e True]),
              qlog := qlog qs @ [Enqueued (ev_channel e) (HandleEventWork e True)]\<rparr>, True)"
  using assms by (simp add: enqueueEvent_def enqueueWork_def processQueue_def is_processing_def)

lemma enqueueEvents_blocked:
  "is_processing qs ch \<Longrightarrow> \<forall>e\<in>set es. ev_channel e = ch \<Longrightarrow> length (pending qs ch) + length es \<le> 5 \<Longrightarrow>
     snd (enqueueEvents qs es) = replicate (length es) True
     \<and> pending (fst (enqueueEvents qs es)) ch = pending qs ch @ map (\<lambda>e. HandleEventWork e True) es
     \<and> loops (fst (enqueueEvents qs es)) = loops qs
     \<and> is_processing (fst (enqueueEvents qs es)) ch
     \<and> enqueued_of ch (qlog (fst (enqueueEvents qs es)))
         = enqueued_of ch (qlog qs) @ map (\<lambda>e. HandleEventWork e True) es"
proof (induction es arbitrary: qs)
  case Nil
  then show ?case by simp
next
  case (Cons e es)
  let ?q = "qs\<lparr>queues := (queues qs)(ch \<mapsto> pending qs ch @ [HandleEventWork e True]),
              qlog := qlog qs @ [Enqueued ch (HandleEventWork e True)]\<rparr>"
  have ch: "ev_channel e = ch" using Cons.prems(2) by simp
  have acc: "enqueueEvent qs e = (?q, True)"
    using enqueueEvent_accept_blocked [of qs e] Cons.prems ch by simp
  have p: "pending ?q ch = pending qs ch @ [HandleEventWork e True]"
    by (simp add: pending_def)
  have ip: "is_processing ?q ch"
    using Cons.prems(1) by (simp add: is_processing_def)
  have len: "length (pending ?q ch) + length es \<le> 5"
    using Cons.prems(3) p by simp
  have rest: "\<forall>e\<in>set es. ev_channel e = ch" using Cons.prems(2) by simp
  have unf: "enqueueEvents qs (e # es) = (fst (enqueueEvents ?q es), True # snd (enqueueEvents ?q es))"
    using acc by (simp split: prod.splits)
  have en: "enqueued_of ch (qlog ?q) = enqueued_of ch (qlog qs) @ [HandleEventWork e True]"
    by (simp add: enqueued_of_append)
  have lo: "loops ?q = loops qs" by simp
  from Cons.IH [OF ip rest len]
  show ?case
    unfolding unf p en lo by simp
qed

lemma enqueueEvents_append:
  "enqueueEvents qs (xs @ ys) =
     (case enqueueEvents qs xs of (qs', rs) \<Rightarrow>
        (case enqueueEvents qs' ys of (qs'', rs') \<Rightarrow> (qs'', rs @ rs')))"
  by (induction xs arbitrary: qs) (auto split: prod.splits)

lemma enqueueEvents_Cons_fst:
  "fst (enqueueEvents qs (e # es)) = fst (enqueueEvents (fst (enqueueEvent qs e)) es)"
  by (cases "enqueueEvent qs e"; cases "enqueueEvents (fst (enqueueEvent qs e)) es") simp

lemma enqueueEvents_inv: "queue_inv qs \<Longrightarrow> queue_inv (fst (enqueueEvents qs es))"
proof (induction es arbitrary: qs)
  case Nil
  then show ?case by simp
next
  case (Cons e es)
  from Cons.IH [OF enqueueEvent_inv [OF Cons.prems, of e]]
  show ?case by (simp only: enqueueEvents_Cons_fst)
qed

lemma six_blocked:
  assumes inv: "queue_inv qs" and ip: "is_processing qs ch" and emp: "pending qs ch = []"
    and len: "length es = 6" and chs: "\<forall>e\<in>set es. ev_channel e = ch"
  shows "snd (enqueueEvents qs es) = [True, True, True, True, True, False]
     \<and> pending (fst (enqueueEvents qs es)) ch = map (\<lambda>e. HandleEventWork e True) (take 5 es)
     \<and> loops (fst (enqueueEvents qs es)) = loops qs
     \<and> (5 < n \<longrightarrow> started_of ch (qlog (drain n rej ch (fst (enqueueEvents qs es))))
            = started_of ch (qlog qs) @ map (\<lambda>e. HandleEventWork e True) (take 5 es))"
proof -
  have "length (drop 5 es) = Suc 0" using len by simp
  then obtain e6 where d6: "drop 5 es = [e6]"
    by (metis length_Suc_conv length_0_conv)
  have es: "es = take 5 es @ [e6]"
    using append_take_drop_id [of 5 es] d6 by simp
  let ?es5 = "take 5 es"
  have l5: "length ?es5 = 5" using len by simp
  have c5: "\<forall>e\<in>set ?es5. ev_channel e = ch" using chs by (auto dest: in_set_takeD)
  have "e6 \<in> set es" using d6 by (metis in_set_dropD list.set_intros(1))
  then have c6: "ev_channel e6 = ch" using chs by simp
  obtain q5 r5 where q5: "enqueueEvents qs ?es5 = (q5, r5)"
    by (cases "enqueueEvents qs ?es5") auto
  from enqueueEvents_blocked [OF ip c5, unfolded q5] emp l5
  have r5: "r5 = replicate 5 True"
    and p5: "pending q5 ch = map (\<lambda>e. HandleEventWork e True) ?es5"
    and lo5: "loops q5 = loops qs"
    and en5: "enqueued_of ch (qlog q5) = enqueued_of ch (qlog qs) @ map (\<lambda>e. HandleEventWork e True) ?es5"
    by simp_all
  have full: "length (pending q5 (ev_channel e6)) \<ge> 5"
    using p5 l5 c6 by simp
  let ?q6 = "q5\<lparr>qlog := qlog q5 @ [QueueFull (ev_channel e6) e6]\<rparr>"
  have e6: "enqueueEvent q5 e6 = (?q6, False)"
    using full by (simp add: enqueueEvent_def)
  have all: "enqueueEvents qs es = (?q6, r5 @ [False])"
    using es enqueueEvents_append [of qs ?es5 "[e6]"] q5 e6 by simp
  have inv5: "queue_inv (fst (enqueueEvents qs es))"
    using enqueueEvents_inv [OF inv] .
  have p6: "pending ?q6 ch = map (\<lambda>e. HandleEventWork e True) ?es5"
    using p5 by (simp add: pending_def)
  have en6: "enqueued_of ch (qlog ?q6) = enqueued_of ch (qlog qs) @ map (\<lambda>e. HandleEventWork e True) ?es5"
    using en5 by (simp add: enqueued_of_append)
  have st0: "started_of ch (qlog qs) = enqueued_of ch (qlog qs)"
    using inv emp unfolding queue_inv_def by (metis append_Nil2)
  have dr: "5 < n \<longrightarrow> started_of ch (qlog (drain n rej ch ?q6)) = enqueued_of ch (qlog ?q6)"
    using drain_all_started [of ?q6 ch n rej] inv5 p6 l5 unfolding all by simp
  show ?thesis
    unfolding all using r5 p6 lo5 dr en6 st0 by (simp add: numeral_eq_Suc)
qed


text \<open>
  Claim C2, as the code has it. \<^verbatim>\<open>enqueueEvent\<close> returns true exactly when fewer than 5
  items are pending for the conversation; the item the drain loop is awaiting has already
  been shifted out and is not counted. A rejected call changes no queue, starts nothing and
  does not wait. So when the drain loop is already suspended on an item and nothing is
  pending, six calls in a row return true five times and then false, the first five events
  are pending in the order submitted, and when the conversation drains exactly those five
  are executed after what had been executed before.
\<close>

theorem enqueueEvent_capacity:
  "(snd (enqueueEvent qs e) \<longleftrightarrow> length (pending qs (ev_channel e)) < 5)
   \<and> (\<not> snd (enqueueEvent qs e) \<longrightarrow>
         queues (fst (enqueueEvent qs e)) = queues qs
       \<and> loops (fst (enqueueEvent qs e)) = loops qs
       \<and> processing (fst (enqueueEvent qs e)) = processing qs)
   \<and> (queue_run init_queues evs = Some qs \<and> is_processing qs ch \<and> pending qs ch = []
        \<and> length es = 6 \<and> (\<forall>x\<in>set es. ev_channel x = ch) \<longrightarrow>
         snd (enqueueEvents qs es) = [True, True, True, True, True, False]
       \<and> pending (fst (enqueueEvents qs es)) ch = map (\<lambda>x. HandleEventWork x True) (take 5 es)
       \<and> loops (fst (enqueueEvents qs es)) = loops qs
       \<and> (5 < n \<longrightarrow> started_of ch (qlog (drain n rej ch (fst (enqueueEvents qs es))))
            = started_of ch (qlog qs) @ map (\<lambda>x. HandleEventWork x True) (take 5 es)))"
proof -
  have a: "snd (enqueueEvent qs e) \<longleftrightarrow> length (pending qs (ev_channel e)) < 5"
    by (auto simp: enqueueEvent_def)
  have b: "\<not> snd (enqueueEvent qs e) \<longrightarrow>
         queues (fst (enqueueEvent qs e)) = queues qs
       \<and> loops (fst (enqueueEvent qs e)) = loops qs
       \<and> processing (fst (enqueueEvent qs e)) = processing qs"
    by (auto simp: enqueueEvent_def)
  have c: "queue_run init_queues evs = Some qs \<and> is_processing qs ch \<and> pending qs ch = []
        \<and> length es = 6 \<and> (\<forall>x\<in>set es. ev_channel x = ch) \<longrightarrow>
         snd (enqueueEvents qs es) = [True, True, True, True, True, False]
       \<and> pending (fst (enqueueEvents qs es)) ch = map (\<lambda>x. HandleEventWork x True) (take 5 es)
       \<and> loops (fst (enqueueEvents qs es)) = loops qs
       \<and> (5 < n \<longrightarrow> started_of ch (qlog (drain n rej ch (fst (enqueueEvents qs es))))
            = started_of ch (qlog qs) @ map (\<lambda>x. HandleEventWork x True) (take 5 es))"
    using six_blocked [of qs ch es n rej] queue_run_inv [OF queue_inv_init, of evs qs] by blast
  from a b c show ?thesis by blast
qed


theorem enqueueEvent_capacity_witness:
  "is_processing (the (queue_run init_queues example_blocked_trace)) ''c''
   \<and> pending (the (queue_run init_queues example_blocked_trace)) ''c'' = []
   \<and> snd (enqueueEvents (the (queue_run init_queues example_blocked_trace)) six_events)
       = [True, True, True, True, True, False]
   \<and> started_of ''c'' (qlog (drain 6 none_throw ''c''
         (fst (enqueueEvents (the (queue_run init_queues example_blocked_trace)) six_events))))
       = started_of ''c'' (qlog (the (queue_run init_queues example_blocked_trace)))
           @ map (\<lambda>x. HandleEventWork x True) (take 5 six_events)
   \<and> \<not> snd (enqueueEvent
         (fst (enqueueEvents (the (queue_run init_queues example_blocked_trace)) six_events)) (ev ''7''))
   \<and> queues (fst (enqueueEvent
         (fst (enqueueEvents (the (queue_run init_queues example_blocked_trace)) six_events)) (ev ''7'')))
       = queues (fst (enqueueEvents (the (queue_run init_queues example_blocked_trace)) six_events))"
proof -
  have ne: "queue_run init_queues example_blocked_trace \<noteq> None"
    by code_simp
  then obtain qs where qs: "queue_run init_queues example_blocked_trace = Some qs"
    by blast
  have ip: "is_processing (the (queue_run init_queues example_blocked_trace)) ''c''"
    by code_simp
  have emp: "pending (the (queue_run init_queues example_blocked_trace)) ''c'' = []"
    by code_simp
  have six: "length six_events = 6 \<and> (\<forall>x\<in>set six_events. ev_channel x = ''c'')"
    by (simp add: six_events_def ev_def)
  have full: "\<not> length (pending
         (fst (enqueueEvents (the (queue_run init_queues example_blocked_trace)) six_events))
         (ev_channel (ev ''7''))) < 5"
    by code_simp
  note t1 = enqueueEvent_capacity [of qs "ev ''7''" example_blocked_trace "''c''" six_events 6 none_throw]
  note t2 = enqueueEvent_capacity [of "fst (enqueueEvents qs six_events)" "ev ''7''"]
  have a: "snd (enqueueEvents qs six_events) = [True, True, True, True, True, False]"
    and b: "started_of ''c'' (qlog (drain 6 none_throw ''c'' (fst (enqueueEvents qs six_events))))
       = started_of ''c'' (qlog qs) @ map (\<lambda>x. HandleEventWork x True) (take 5 six_events)"
    using t1 qs ip emp six by simp_all
  have c: "\<not> snd (enqueueEvent (fst (enqueueEvents qs six_events)) (ev ''7''))"
    using t2 full qs by simp
  then have d: "queues (fst (enqueueEvent (fst (enqueueEvents qs six_events)) (ev ''7'')))
       = queues (fst (enqueueEvents qs six_events))"
    using t2 by blast
  show ?thesis
    using ip emp a b c d qs by simp
qed

text \<open>
  Claim C2 as stated fails on a conversation that is idle when the first event arrives:
  that event is shifted out of the queue and called at once, so while it executes the next
  five find fewer than 5 items pending. All six calls return true, and when the
  conversation drains all six events are executed.
\<close>

theorem enqueueEvent_idle_counterexample:
  "snd (enqueueEvents init_queues six_events) = [True, True, True, True, True, True]
   \<and> length (started_of ''c'' (qlog (drain 6 none_throw ''c''
        (fst (enqueueEvents init_queues six_events))))) = 6"
  by code_simp

subsection \<open>The rendering context\<close>


lemma ops_one_at_a_time_append:
  "ops_one_at_a_time out (xs @ ys) =
     (case ops_one_at_a_time out xs of None \<Rightarrow> None | Some out' \<Rightarrow> ops_one_at_a_time out' ys)"
  by (induction out xs rule: ops_one_at_a_time.induct) auto

lemma updateDisplay_cases:
  "updateDisplay ef c lg = Finished \<or> (\<exists>op pc. updateDisplay ef c lg = Suspended op pc)"
  by (simp add: updateDisplay_def split: option.splits)

lemma seg_start_recentTools:
  "length (recentTools c) \<le> 3 \<Longrightarrow> length (recentTools (fst (seg_start ef c call))) \<le> 3"
  by (cases call) (auto simp: Let_def split: option.splits)

lemma seg_resume_recentTools:
  "seg_resume ef c pc r = Some (c', lg, nxt) \<Longrightarrow> recentTools c' = recentTools c"
  by (cases "(ef, c, pc, r)" rule: seg_resume.cases) auto

lemma proceed_inv:
  assumes srt: "sorted (map entry_call (rlog s))"
    and ch: "sorted_wrt (<) (map fst (chain s))"
    and chb: "\<forall>m\<in>set (map fst (chain s)). m < ncalls s \<and> (\<forall>k\<in>set (map entry_call (rlog s)). k < m)"
    and n: "n < ncalls s"
    and nb: "\<forall>k\<in>set (map entry_call (rlog s)). k \<le> n"
    and nc: "\<forall>m\<in>set (map fst (chain s)). n < m"
    and tb: "\<forall>k\<in>set (map entry_call (rlog s)). k < ncalls s"
    and ops: "ops_one_at_a_time False (rlog s) = Some False"
    and rt: "length (recentTools (ctx s)) \<le> 3"
  shows "render_inv (proceed n nxt s)"
proof (cases nxt)
  case (Suspended op pc)
  have p: "proceed n nxt s = s\<lparr>current := Some (n, pc), rlog := rlog s @ [Issued n op]\<rparr>"
    by (simp add: proceed_def Suspended)
  show ?thesis
    unfolding p render_inv_def
    using srt ch chb n nb nc tb ops rt
    by (auto simp: sorted_append ops_one_at_a_time_append)
next
  case Finished
  have p: "proceed n nxt s = s\<lparr>current := None\<rparr>"
    by (simp add: proceed_def Finished)
  show ?thesis
    unfolding p render_inv_def
    using srt ch chb tb ops rt by auto
next
  case (Thrown err)
  have p: "proceed n nxt s = s\<lparr>current := None, chain_rejected := True\<rparr>"
    by (simp add: proceed_def Thrown)
  show ?thesis
    unfolding p render_inv_def
    using srt ch chb tb ops rt by auto
qed

lemma render_step_inv:
  assumes inv: "render_inv s" and step: "render_step s e = Some s'"
  shows "render_inv s'"
proof -
  have srt: "sorted (map entry_call (rlog s))"
    and ch: "sorted_wrt (<) (map fst (chain s))"
    and chb: "\<forall>m\<in>set (map fst (chain s)). m < ncalls s \<and> (\<forall>k\<in>set (map entry_call (rlog s)). k < m)"
    and cur: "\<forall>n pc. current s = Some (n, pc) \<longrightarrow>
            n < ncalls s \<and> (\<forall>k\<in>set (map entry_call (rlog s)). k \<le> n)
            \<and> (\<forall>m\<in>set (map fst (chain s)). n < m)"
    and tb: "\<forall>k\<in>set (map entry_call (rlog s)). k < ncalls s"
    and ops: "ops_one_at_a_time False (rlog s) = Some (current s \<noteq> None)"
    and rt: "length (recentTools (ctx s)) \<le> 3"
    using inv unfolding render_inv_def by blast+
  show ?thesis
  proof (cases e)
    case (Call call)
    have s': "s' = s\<lparr>ncalls := ncalls s + 1,
                  chain := (if registers (ctx s) call then chain s @ [(ncalls s, call)] else chain s)\<rparr>"
      using step Call by (simp add: render_step_def)
    show ?thesis
      unfolding s' render_inv_def
      using srt ch chb cur tb ops rt
      by (auto simp: sorted_wrt_append less_Suc_eq)
  next
    case NextCallback
    from step NextCallback obtain n call rest where
      c0: "current s = None" and c1: "chain s = (n, call) # rest"
      by (auto simp: render_step_def split: option.splits list.splits)
    show ?thesis
    proof (cases "chain_rejected s")
      case True
      have s': "s' = s\<lparr>chain := rest\<rparr>"
        using step NextCallback c0 c1 True by (simp add: render_step_def)
      show ?thesis
        unfolding s' render_inv_def
        using srt ch chb cur tb ops rt c0 c1 by auto
    next
      case False
      obtain c' nxt where st: "seg_start (eventFilename s) (ctx s) call = (c', nxt)"
        by (cases "seg_start (eventFilename s) (ctx s) call") auto
      have s': "s' = proceed n nxt (s\<lparr>chain := rest, ctx := c'\<rparr>)"
        using step NextCallback c0 c1 False st by (simp add: render_step_def)
      have rt': "length (recentTools c') \<le> 3"
        using seg_start_recentTools [OF rt, of "eventFilename s" call] st by simp
      show ?thesis
        unfolding s'
        using srt ch chb tb ops rt' c0 c1
        by (intro proceed_inv) (auto simp: less_imp_le)
    qed
  next
    case (OpSettles r)
    from step OpSettles obtain n pc c' logged nxt where
      c0: "current s = Some (n, pc)"
      and rs: "seg_resume (eventFilename s) (ctx s) pc r = Some (c', logged, nxt)"
      by (auto simp: render_step_def split: option.splits)
    let ?extra = "case logged of None \<Rightarrow> [] | Some (text, mid) \<Rightarrow> [BotResponseLogged n text mid]"
    have s': "s' = proceed n nxt (s\<lparr>ctx := c', rlog := rlog s @ OpSettled n r # ?extra\<rparr>)"
      using step OpSettles c0 rs by (simp add: render_step_def)
    have ex: "?extra = [] \<or> (\<exists>t m. ?extra = [BotResponseLogged n t m])"
      by (cases logged) auto
    have rt': "length (recentTools c') \<le> 3"
      using seg_resume_recentTools [OF rs] rt by simp
    have nn: "n < ncalls s" and nb: "\<forall>k\<in>set (map entry_call (rlog s)). k \<le> n"
      and nc: "\<forall>m\<in>set (map fst (chain s)). n < m"
      using cur c0 by blast+
    show ?thesis
      unfolding s'
    proof (intro proceed_inv)
      show "sorted (map entry_call (rlog (s\<lparr>ctx := c', rlog := rlog s @ OpSettled n r # ?extra\<rparr>)))"
        using srt nb ex by (auto simp: sorted_append)
      show "ops_one_at_a_time False (rlog (s\<lparr>ctx := c', rlog := rlog s @ OpSettled n r # ?extra\<rparr>)) = Some False"
        using ops c0 ex by (auto simp: ops_one_at_a_time_append)
      show "\<forall>m\<in>set (map fst (chain (s\<lparr>ctx := c', rlog := rlog s @ OpSettled n r # ?extra\<rparr>))).
              m < ncalls (s\<lparr>ctx := c', rlog := rlog s @ OpSettled n r # ?extra\<rparr>)
              \<and> (\<forall>k\<in>set (map entry_call (rlog (s\<lparr>ctx := c', rlog := rlog s @ OpSettled n r # ?extra\<rparr>))). k < m)"
        using chb nc ex by auto
      show "\<forall>k\<in>set (map entry_call (rlog (s\<lparr>ctx := c', rlog := rlog s @ OpSettled n r # ?extra\<rparr>))). k \<le> n"
        using nb ex by auto
      show "\<forall>k\<in>set (map entry_call (rlog (s\<lparr>ctx := c', rlog := rlog s @ OpSettled n r # ?extra\<rparr>))).
              k < ncalls (s\<lparr>ctx := c', rlog := rlog s @ OpSettled n r # ?extra\<rparr>)"
        using tb nn ex by auto
    qed (use ch nn nc rt' in auto)
  qed
qed

lemma render_run_inv: "render_inv s \<Longrightarrow> render_run s es = Some s' \<Longrightarrow> render_inv s'"
  by (induction es arbitrary: s) (auto split: option.splits dest: render_step_inv)

lemma render_inv_init: "render_inv (init_render ef)"
  by (simp add: render_inv_def init_render_def init_ctx_def)

lemma issued_ops_subset: "set (map fst (issued_ops l)) \<subseteq> set (map entry_call l)"
  by (induction l rule: issued_ops.induct) auto

lemma issued_ops_sorted:
  "sorted (map entry_call l) \<Longrightarrow> sorted (map fst (issued_ops l))"
proof (induction l)
  case Nil
  then show ?case by simp
next
  case (Cons x l)
  then have ih: "sorted (map fst (issued_ops l))"
    and le: "\<forall>k\<in>set (map entry_call l). entry_call x \<le> k"
    by simp_all
  show ?case
  proof (cases x)
    case (Issued n op)
    then show ?thesis
      using ih le issued_ops_subset [of l] by auto
  next
    case (OpSettled n r)
    then show ?thesis using ih by simp
  next
    case (BotResponseLogged n t mid)
    then show ?thesis using ih by simp
  qed
qed

text \<open>
  Claim C3. For any sequence of calls of \<^verbatim>\<open>respond\<close>, \<^verbatim>\<open>replaceMessage\<close>, \<^verbatim>\<open>setTyping\<close>,
  \<^verbatim>\<open>setWorking\<close> and \<^verbatim>\<open>deleteMessage\<close> on one context, arriving at any moments relative to the
  settlements of the platform calls: the platform calls are issued in the order of the
  public calls that produced them, as is everything else the context does; and no platform
  call is issued while an earlier one has not settled.
\<close>

theorem platform_ops_in_call_order:
  "render_run (init_render ef) es = Some s \<Longrightarrow>
     sorted (map fst (issued_ops (rlog s)))
   \<and> sorted (map entry_call (rlog s))
   \<and> ops_one_at_a_time False (rlog s) = Some (current s \<noteq> None)"
proof -
  assume "render_run (init_render ef) es = Some s"
  then have "render_inv s"
    using render_run_inv [OF render_inv_init] by blast
  then have "sorted (map entry_call (rlog s))"
    and "ops_one_at_a_time False (rlog s) = Some (current s \<noteq> None)"
    unfolding render_inv_def by blast+
  then show ?thesis
    using issued_ops_sorted by blast
qed

theorem platform_ops_in_call_order_witness:
  "render_run (init_render None) example_render_trace \<noteq> None
   \<and> issued_ops (rlog (the (render_run (init_render None) example_render_trace)))
       = [(0, OpSendChatAction), (0, OpPostMessage ''<i>Thinking</i> ...''),
          (1, OpUpdateMessage ''10'' ''<i>Thinking</i> ...''), (2, OpUpdateMessage ''10'' ''hi'')]
   \<and> sorted (map fst (issued_ops (rlog (the (render_run (init_render None) example_render_trace)))))"
proof -
  have ne: "render_run (init_render None) example_render_trace \<noteq> None"
    by code_simp
  then obtain s where s: "render_run (init_render None) example_render_trace = Some s"
    by blast
  have ops: "issued_ops (rlog (the (render_run (init_render None) example_render_trace)))
       = [(0, OpSendChatAction), (0, OpPostMessage ''<i>Thinking</i> ...''),
          (1, OpUpdateMessage ''10'' ''<i>Thinking</i> ...''), (2, OpUpdateMessage ''10'' ''hi'')]"
    by code_simp
  from platform_ops_in_call_order [OF s]
  have "sorted (map fst (issued_ops (rlog s)))"
    by blast
  with ne ops s show ?thesis
    by (simp only: option.sel simp_thms)
qed



end
